theory Spec2Isabelle
  imports Main "HOL-Library.Sublist"
begin

section \<open>Strings and characters\<close>

text \<open>
  A JavaScript string is a sequence of UTF-16 code units. The model works on \<^typ>\<open>string\<close>, a
  list of 8-bit characters, read as the code units U+0000 .. U+00FF; \<open>length\<close> is the
  \<open>.length\<close> of the source. The character classes of the regular expressions in the source
  (\<open>[A-Z]\<close>, \<open>[a-z0-9]\<close>, \<open>\d\<close>, \<open>\w\<close>) are ASCII ranges. Code units above U+00FF are
  outside the model: there the matching under the flag \<open>i\<close> and the lower-casing of the
  lookup can disagree (U+00B5 matches U+03BC, and their lower-case forms differ), so what is
  proved about masking is about terms and texts within the range.
\<close>

definition code :: "char \<Rightarrow> nat" where
  "code c = of_char c"

definition is_AZ :: "char \<Rightarrow> bool" where
  "is_AZ c = (65 \<le> code c \<and> code c \<le> 90)"

definition is_az :: "char \<Rightarrow> bool" where
  "is_az c = (97 \<le> code c \<and> code c \<le> 122)"

definition is_digit :: "char \<Rightarrow> bool" where
  "is_digit c = (48 \<le> code c \<and> code c \<le> 57)"

text \<open>\<open>[A-Za-z]\<close> and \<open>[a-z0-9]\<close>, the two classes of the placeholder grammar.\<close>

definition is_alpha :: "char \<Rightarrow> bool" where
  "is_alpha c = (is_AZ c \<or> is_az c)"

definition is_idchar :: "char \<Rightarrow> bool" where
  "is_idchar c = (is_az c \<or> is_digit c)"

text \<open>\<open>\w\<close>, which decides the word boundary \<open>\b\<close>: \<open>[A-Za-z0-9_]\<close>.\<close>

definition is_word_char :: "char \<Rightarrow> bool" where
  "is_word_char c = (is_AZ c \<or> is_az c \<or> is_digit c \<or> c = CHR ''_'')"

text \<open>
  Case conversion on the code units below 256. Upper-case letters are \<open>A-Z\<close> and
  U+00C0 .. U+00DE without the multiplication sign U+00D7; the lower-case partner is 32 higher,
  that is, bit 5 set. \<open>String.prototype.toLowerCase\<close> maps every other code unit of the range
  to itself.
\<close>

definition has_lower :: "char \<Rightarrow> bool" where
  "has_lower c = (is_AZ c \<or> (192 \<le> code c \<and> code c \<le> 222 \<and> code c \<noteq> 215))"

definition has_upper :: "char \<Rightarrow> bool" where
  "has_upper c = (is_az c \<or> (224 \<le> code c \<and> code c \<le> 254 \<and> code c \<noteq> 247))"

fun set_bit5 :: "bool \<Rightarrow> char \<Rightarrow> char" where
  "set_bit5 b (Char b0 b1 b2 b3 b4 b5 b6 b7) = Char b0 b1 b2 b3 b4 b b6 b7"

definition lower_char :: "char \<Rightarrow> char" where
  "lower_char c = (if has_lower c then set_bit5 True c else c)"

definition toLowerCase :: "string \<Rightarrow> string" where
  "toLowerCase s = map lower_char s"

text \<open>
  \<open>Canonicalize\<close> of the regular expression semantics under the flag \<open>i\<close> (without \<open>u\<close>):
  the character is upper-cased when the result is a single code unit. U+00DF has a two-unit
  upper case and stays; the upper cases of U+00B5 and U+00FF lie above U+00FF and are the image
  of no other character of the range, so both stand for themselves here.
\<close>

definition canonicalize :: "char \<Rightarrow> char" where
  "canonicalize c = (if has_upper c then set_bit5 False c else c)"

section \<open>The regular expressions of the source\<close>

text \<open>
  The fragment of the regular expression language that the source uses: a pattern is a
  disjunction of alternatives, an alternative is a sequence of atoms. An atom is a literal
  character, a character class (given by its predicate), a greedy \<open>+\<close> over a class, or the
  assertion \<open>\b\<close>. The only class used under the flag \<open>i\<close> is \<open>\d\<close>, whose members have no
  case variants, so a class tests its predicate directly.
\<close>

datatype atom = Ch char | Cls "char \<Rightarrow> bool" | Plus "char \<Rightarrow> bool" | WordBoundary

type_synonym regexp = "atom list list"

definition char_matches :: "bool \<Rightarrow> char \<Rightarrow> char \<Rightarrow> bool" where
  "char_matches ignoreCase a c =
     (if ignoreCase then canonicalize a = canonicalize c else a = c)"

text \<open>
  \<open>\b\<close> holds between the previous character and the next one when exactly one of them is
  a word character; the positions before the start and after the end count as non-word.
\<close>

definition word_before :: "char option \<Rightarrow> bool" where
  "word_before prev = (case prev of None \<Rightarrow> False | Some c \<Rightarrow> is_word_char c)"

definition word_after :: "string \<Rightarrow> bool" where
  "word_after s = (case s of [] \<Rightarrow> False | c # _ \<Rightarrow> is_word_char c)"

definition at_boundary :: "char option \<Rightarrow> string \<Rightarrow> bool" where
  "at_boundary prev s = (word_before prev \<noteq> word_after s)"

text \<open>
  Matching one alternative at the current position, by backtracking: \<open>prev\<close> is the character
  before the position, the string is the rest of the input, the result is the number of
  characters consumed. A greedy \<open>+\<close> first tries to take one more character and falls back to
  stopping where it is.
\<close>

fun match_atoms :: "bool \<Rightarrow> atom list \<Rightarrow> char option \<Rightarrow> string \<Rightarrow> nat option" where
  "match_atoms ic [] prev s = Some 0"
| "match_atoms ic (WordBoundary # as) prev s =
     (if at_boundary prev s then match_atoms ic as prev s else None)"
| "match_atoms ic (Ch a # as) prev [] = None"
| "match_atoms ic (Ch a # as) prev (c # cs) =
     (if char_matches ic a c then map_option Suc (match_atoms ic as (Some c) cs) else None)"
| "match_atoms ic (Cls P # as) prev [] = None"
| "match_atoms ic (Cls P # as) prev (c # cs) =
     (if P c then map_option Suc (match_atoms ic as (Some c) cs) else None)"
| "match_atoms ic (Plus P # as) prev [] = None"
| "match_atoms ic (Plus P # as) prev (c # cs) =
     (if P c
      then (case match_atoms ic (Plus P # as) (Some c) cs of
              Some n \<Rightarrow> Some (Suc n)
            | None \<Rightarrow> map_option Suc (match_atoms ic as (Some c) cs))
      else None)"

text \<open>A disjunction takes its first alternative that matches.\<close>

fun match_alts :: "bool \<Rightarrow> regexp \<Rightarrow> char option \<Rightarrow> string \<Rightarrow> nat option" where
  "match_alts ic [] prev s = None"
| "match_alts ic (alt # alts) prev s =
     (case match_atoms ic alt prev s of
        Some n \<Rightarrow> Some n
      | None \<Rightarrow> match_alts ic alts prev s)"

text \<open>\<open>RegExp.prototype.test\<close> of a pattern without the flag \<open>g\<close>: is there a position with a match?\<close>

fun js_test :: "bool \<Rightarrow> regexp \<Rightarrow> char option \<Rightarrow> string \<Rightarrow> bool" where
  "js_test ic re prev [] = (match_alts ic re prev [] \<noteq> None)"
| "js_test ic re prev (c # cs) =
     (match_alts ic re prev (c # cs) \<noteq> None \<or> js_test ic re (Some c) cs)"

text \<open>
  The scan of a pattern with the flag \<open>g\<close>, as \<open>String.prototype.replace\<close> and
  \<open>String.prototype.match\<close> run it: the matches from left to right, not overlapping, with the
  characters between them. After an empty match the scan moves one character on.
\<close>

datatype seg = Gap char | Hit string

fun js_scan :: "bool \<Rightarrow> regexp \<Rightarrow> char option \<Rightarrow> string \<Rightarrow> seg list" where
  "js_scan ic re prev [] =
     (case match_alts ic re prev [] of None \<Rightarrow> [] | Some n \<Rightarrow> [Hit []])"
| "js_scan ic re prev (c # cs) =
     (case match_alts ic re prev (c # cs) of
        None \<Rightarrow> Gap c # js_scan ic re (Some c) cs
      | Some 0 \<Rightarrow> Hit [] # Gap c # js_scan ic re (Some c) cs
      | Some (Suc k) \<Rightarrow>
          Hit (c # take k cs) # js_scan ic re (Some (last (c # take k cs))) (drop k cs))"

text \<open>\<open>text.replace(re, f)\<close>: every match is replaced by what the callback returns for it.\<close>

fun render :: "(string \<Rightarrow> string) \<Rightarrow> seg \<Rightarrow> string" where
  "render f (Gap c) = [c]"
| "render f (Hit m) = f m"

definition js_replace :: "bool \<Rightarrow> regexp \<Rightarrow> (string \<Rightarrow> string) \<Rightarrow> string \<Rightarrow> string" where
  "js_replace ic re f s = concat (map (render f) (js_scan ic re None s))"

text \<open>\<open>text.match(re)\<close> with the flag \<open>g\<close>: the list of the matched strings (\<open>null\<close> when empty).\<close>

fun hits :: "seg list \<Rightarrow> string list" where
  "hits [] = []"
| "hits (Gap c # segs) = hits segs"
| "hits (Hit m # segs) = m # hits segs"

definition js_match_all :: "bool \<Rightarrow> regexp \<Rightarrow> string \<Rightarrow> string list" where
  "js_match_all ic re s = hits (js_scan ic re None s)"

section \<open>Anomaly classification (\<open>src/lib/db/schema.ts\<close>)\<close>

datatype AnomalyType = MISSING | SAME | DLC | TECHNICAL | PUNCTUATION

text \<open>\<open>/DLC\d+/i.test(text) || text.startsWith("DLC")\<close>\<close>

definition isDLC :: "string \<Rightarrow> bool" where
  "isDLC text =
     (js_test True [[Ch CHR ''D'', Ch CHR ''L'', Ch CHR ''C'', Plus is_digit]] None text
      \<or> prefix ''DLC'' text)"

definition isTechnical :: "string \<Rightarrow> bool" where
  "isTechnical text =
     (if CHR '' '' \<in> set text then False
      else
        let hasUpper = js_test False [[Cls is_AZ]] None text in
        if \<not> hasUpper then False
        else
          let hasNumber = js_test False [[Cls is_digit]] None text;
              hasUnderscore = js_test False [[Ch CHR ''_'']] None text;
              upperCount = length (js_match_all False [[Cls is_AZ]] text)
          in hasNumber \<or> hasUnderscore \<or> upperCount > 1)"

text \<open>The critical punctuation: \<open><\<close>, \<open>>\<close> and the double quote (code 0x22).\<close>

definition is_critical :: "char \<Rightarrow> bool" where
  "is_critical c = (c = CHR ''<'' \<or> c = CHR ''>'' \<or> c = CHR 0x22)"

text \<open>\<open>s.replace(/[^<>"]/g, '')\<close>\<close>

definition getCriticalPunctuation :: "string \<Rightarrow> string" where
  "getCriticalPunctuation s = js_replace False [[Cls (\<lambda>c. \<not> is_critical c)]] (\<lambda>m. []) s"

definition isPunctuationMismatch :: "string \<Rightarrow> string \<Rightarrow> bool" where
  "isPunctuationMismatch source dest =
     (if dest = [] then False
      else getCriticalPunctuation source \<noteq> getCriticalPunctuation dest)"

text \<open>
  \<open>dest\<close> is \<open>string | null\<close>; \<open>!dest\<close> holds for \<open>null\<close> and for the empty string. The tags are
  pushed in the order of the source.
\<close>

definition getAnomalyTypes :: "string \<Rightarrow> string option \<Rightarrow> AnomalyType list" where
  "getAnomalyTypes source dest =
     (case dest of
        None \<Rightarrow> [MISSING]
      | Some d \<Rightarrow>
          if d = [] then [MISSING]
          else if source = d then [SAME]
          else if isPunctuationMismatch source d then [PUNCTUATION]
          else [])
     @ (if isDLC source then [DLC] else [])
     @ (if isTechnical source then [TECHNICAL] else [])"

section \<open>The glossary and the placeholder cache (\<open>loadGlossaryCache\<close>, \<open>unmaskText\<close>)\<close>

text \<open>
  A row of the table \<open>glossary\<close>: \<open>id\<close> is the primary key, \<open>term\<close> is not null, \<open>category\<close>
  is nullable.
\<close>

record glossary_row =
  gl_id :: string
  gl_term :: string
  gl_category :: "string option"

text \<open>
  The key of a row in the cache is the template literal \<open>`[${term.category}_${term.id}]`\<close>; a
  \<open>null\<close> category prints as \<open>null\<close>.
\<close>

definition cache_key :: "glossary_row \<Rightarrow> string" where
  "cache_key t =
     ''['' @ (case gl_category t of None \<Rightarrow> ''null'' | Some c \<Rightarrow> c) @ ''_'' @ gl_id t @ '']''"

text \<open>The cache is filled row by row (\<open>glossaryCache.set(key, term.term)\<close>); a later row wins.\<close>

definition loadGlossaryCache :: "glossary_row list \<Rightarrow> (string \<rightharpoonup> string)" where
  "loadGlossaryCache terms = fold (\<lambda>t cache. cache(cache_key t \<mapsto> gl_term t)) terms Map.empty"

text \<open>\<open>/\[([A-Za-z]+)_([a-z0-9]+)\]/g\<close>; the callback reads the whole match only.\<close>

definition unmask_pattern :: regexp where
  "unmask_pattern = [[Ch CHR ''['', Plus is_alpha, Ch CHR ''_'', Plus is_idchar, Ch CHR '']'']]"

text \<open>
  \<open>original || match\<close>: the match stays when the cache has no entry for it, and also when the
  entry is the empty string, which is falsy.
\<close>

definition unmask_callback :: "(string \<rightharpoonup> string) \<Rightarrow> string \<Rightarrow> string" where
  "unmask_callback cache m =
     (case cache m of
        None \<Rightarrow> m
      | Some original \<Rightarrow> if original = [] then m else original)"

definition unmaskText :: "string \<Rightarrow> (string \<rightharpoonup> string) \<Rightarrow> string" where
  "unmaskText text cache = js_replace False unmask_pattern (unmask_callback cache) text"

section \<open>Masking (\<open>src/scripts/mask_strings.ts\<close>)\<close>

text \<open>
  The entries of \<open>sortedTerms\<close>: the category of a row, or \<open>Term\<close> when it is \<open>null\<close> or empty
  (\<open>t.category || 'Term'\<close>).
\<close>

record mask_term =
  mt_term :: string
  mt_id :: string
  mt_category :: string

definition to_mask_term :: "glossary_row \<Rightarrow> mask_term" where
  "to_mask_term t =
     \<lparr>mt_term = gl_term t, mt_id = gl_id t,
      mt_category = (case gl_category t of
                       None \<Rightarrow> ''Term''
                     | Some c \<Rightarrow> if c = [] then ''Term'' else c)\<rparr>"

text \<open>
  \<open>.sort((a, b) => b.term.length - a.term.length)\<close>: a stable sort, longest term first.
\<close>

definition sortedTerms :: "glossary_row list \<Rightarrow> mask_term list" where
  "sortedTerms glossaryTerms =
     sort_key (\<lambda>t. - int (length (mt_term t))) (map to_mask_term glossaryTerms)"

text \<open>\<open>termLookup\<close> and \<open>termSet\<close>, filled in the order of \<open>sortedTerms\<close>; a later entry wins.\<close>

definition termLookup :: "mask_term list \<Rightarrow> (string \<rightharpoonup> string \<times> string)" where
  "termLookup ts =
     fold (\<lambda>t m. m(toLowerCase (mt_term t) \<mapsto> (mt_id t, mt_category t))) ts Map.empty"

definition termSet :: "mask_term list \<Rightarrow> string set" where
  "termSet ts = fold (\<lambda>t S. insert (toLowerCase (mt_term t)) S) ts {}"

text \<open>
  The class \<open>[.*+?^${}()|[\]\\]\<close> of \<open>escapeRegExp\<close>; these fourteen characters are exactly the
  syntax characters of the pattern grammar. The backslash has code 0x5C.
\<close>

definition is_syntax_char :: "char \<Rightarrow> bool" where
  "is_syntax_char c = (c \<in> set ''.*+?^${}()|[]'' \<or> c = CHR 0x5C)"

text \<open>\<open>string.replace(/[.*+?^${}()|[\]\\]/g, '\\$&')\<close>: a backslash before every such character.\<close>

definition escapeRegExp :: "string \<Rightarrow> string" where
  "escapeRegExp s = js_replace False [[Cls is_syntax_char]] (\<lambda>m. CHR 0x5C # m) s"

definition escapedTerms :: "mask_term list \<Rightarrow> string list" where
  "escapedTerms ts =
     map (\<lambda>t. [CHR 0x5C, CHR ''b''] @ escapeRegExp (mt_term t) @ [CHR 0x5C, CHR ''b'']) ts"

text \<open>\<open>escapedTerms.join('|')\<close>\<close>

fun join_bar :: "string list \<Rightarrow> string" where
  "join_bar [] = []"
| "join_bar [x] = x"
| "join_bar (x # y # ys) = x @ ''|'' @ join_bar (y # ys)"

text \<open>
  \<open>new RegExp(source, 'gi')\<close> on the fragment that the pattern source can contain: \<open>\b\<close> is the
  word boundary, a backslash before a syntax character makes it a literal, \<open>|\<close> starts the
  next alternative, every other character that is not a syntax character is a literal. The
  result is \<open>None\<close> for a source outside this fragment.
\<close>

fun add_atom :: "atom \<Rightarrow> regexp option \<Rightarrow> regexp option" where
  "add_atom a None = None"
| "add_atom a (Some []) = None"
| "add_atom a (Some (alt # alts)) = Some ((a # alt) # alts)"

fun parse_pattern :: "string \<Rightarrow> regexp option" where
  "parse_pattern [] = Some [[]]"
| "parse_pattern [c] =
     (if c = CHR ''|'' then Some [[], []]
      else if is_syntax_char c then None
      else Some [[Ch c]])"
| "parse_pattern (c # d # ds) =
     (if c = CHR 0x5C
      then (if d = CHR ''b'' then add_atom WordBoundary (parse_pattern ds)
            else if is_syntax_char d then add_atom (Ch d) (parse_pattern ds)
            else None)
      else if c = CHR ''|'' then map_option (\<lambda>alts. [] # alts) (parse_pattern (d # ds))
      else if is_syntax_char c then None
      else add_atom (Ch c) (parse_pattern (d # ds)))"

text \<open>
  The callback of the masking \<open>replace\<close>: the placeholder \<open>`[${info.category}_${info.id}]`\<close>
  of the entry found for the lower-cased match, or the match itself.
\<close>

definition mask_callback :: "(string \<rightharpoonup> string \<times> string) \<Rightarrow> string \<Rightarrow> string" where
  "mask_callback lookup m =
     (case lookup (toLowerCase m) of
        Some (ident, cat) \<Rightarrow> ''['' @ cat @ ''_'' @ ident @ '']''
      | None \<Rightarrow> m)"

text \<open>
  The masking of one source text with the glossary rows read back from the table. The script
  returns before any masking when there is no term; the constructor of the pattern throws on
  a malformed source.
\<close>

datatype mask_error = NoTerms | SyntaxError

definition maskText :: "glossary_row list \<Rightarrow> string \<Rightarrow> mask_error + string" where
  "maskText glossaryTerms source =
     (let ts = sortedTerms glossaryTerms;
          lookup = termLookup ts;
          escaped = escapedTerms ts
      in if escaped = [] then Inl NoTerms
         else case parse_pattern (join_bar escaped) of
                None \<Rightarrow> Inl SyntaxError
              | Some pattern \<Rightarrow> Inr (js_replace True pattern (mask_callback lookup) source))"

text \<open>
  A row of the table \<open>dialog_strings\<close>, and one entry of the list \<open>updates\<close> that the loop
  collects.
\<close>

record dialog_string =
  ds_id :: nat
  ds_fileId :: nat
  ds_sId :: string
  ds_listId :: "string option"
  ds_source :: "string option"
  ds_dest :: "string option"
  ds_maskedSource :: "string option"

record row_update =
  u_id :: nat
  u_dest :: "string option"
  u_maskedSource :: string

text \<open>
  The body of the loop for one record: a record without source is skipped; part A fills dest
  with the source when the lower-cased source is in \<open>termSet\<close>; part B masks the source;
  an update is pushed when either changed something.
\<close>

definition mask_record ::
  "string set \<Rightarrow> (string \<rightharpoonup> string \<times> string) \<Rightarrow> regexp \<Rightarrow> dialog_string \<Rightarrow> row_update option" where
  "mask_record tset lookup pattern record =
     (case ds_source record of
        None \<Rightarrow> None
      | Some source \<Rightarrow>
          if source = [] then None
          else
            let autofill = (toLowerCase source \<in> tset \<and> ds_dest record \<noteq> Some source);
                dest = (if autofill then Some source else ds_dest record);
                newMasked = js_replace True pattern (mask_callback lookup) source;
                changed = (Some newMasked \<noteq> ds_maskedSource record);
                masked = (if changed then newMasked else source)
            in if autofill \<or> changed
               then Some \<lparr>u_id = ds_id record, u_dest = dest, u_maskedSource = masked\<rparr>
               else None)"

text \<open>
  \<open>db.update(dialogStrings).set({ dest: u.dest, maskedSource: u.maskedSource })
  .where(eq(dialogStrings.id, u.id))\<close>
\<close>

definition update_row :: "row_update \<Rightarrow> dialog_string \<Rightarrow> dialog_string" where
  "update_row u r =
     (if ds_id r = u_id u
      then r\<lparr>ds_dest := u_dest u, ds_maskedSource := Some (u_maskedSource u)\<rparr>
      else r)"

definition apply_update :: "row_update \<Rightarrow> dialog_string list \<Rightarrow> dialog_string list" where
  "apply_update u table = map (update_row u) table"

text \<open>
  Steps 3 to 5 of \<open>main\<close> on the glossary rows and the table of dialog strings: the updates
  are collected from the rows as read, then applied one after the other.
\<close>

definition mask_main :: "glossary_row list \<Rightarrow> dialog_string list \<Rightarrow> mask_error + dialog_string list" where
  "mask_main glossaryTerms allStrings =
     (let ts = sortedTerms glossaryTerms;
          lookup = termLookup ts;
          tset = termSet ts;
          escaped = escapedTerms ts
      in if escaped = [] then Inl NoTerms
         else case parse_pattern (join_bar escaped) of
                None \<Rightarrow> Inl SyntaxError
              | Some pattern \<Rightarrow>
                  let updates = List.map_filter (mask_record tset lookup pattern) allStrings
                  in Inr (fold apply_update updates allStrings))"

section \<open>The notions of the specification\<close>

text \<open>
  The placeholder grammar in words: an opening bracket, a category of one or more letters, an
  underscore, an identifier of one or more lower-case letters and digits, a closing bracket.
\<close>

definition is_placeholder :: "string \<Rightarrow> bool" where
  "is_placeholder w =
     (\<exists>cat ident. w = ''['' @ cat @ ''_'' @ ident @ '']''
        \<and> cat \<noteq> [] \<and> list_all is_alpha cat \<and> ident \<noteq> [] \<and> list_all is_idchar ident)"

text \<open>
  A text without malformed partial placeholders: every opening bracket of the text starts a
  well-formed placeholder.
\<close>

definition starts_placeholder :: "string \<Rightarrow> bool" where
  "starts_placeholder s = (\<exists>ph rest. s = ph @ rest \<and> is_placeholder ph)"

fun well_bracketed :: "string \<Rightarrow> bool" where
  "well_bracketed [] = True"
| "well_bracketed (c # cs) =
     ((c = CHR ''['' \<longrightarrow> starts_placeholder (c # cs)) \<and> well_bracketed cs)"

text \<open>
  The character before the position that is reached after reading \<open>s\<close> from a position with
  \<open>prev\<close> before it.
\<close>

definition prev_of :: "char option \<Rightarrow> string \<Rightarrow> char option" where
  "prev_of prev s = (if s = [] then prev else Some (last s))"

text \<open>
  A whole-word occurrence of a term at a position, ignoring case: the rest of the text starts
  with the term up to letter case, the character before the position, if there is one, is
  not a word character, and neither is the character after the occurrence, if there is one.
  A word character is one of \<open>[A-Za-z0-9_]\<close>.
\<close>

definition whole_word_at :: "string \<Rightarrow> char option \<Rightarrow> string \<Rightarrow> bool" where
  "whole_word_at t prev s =
     (length t \<le> length s
      \<and> toLowerCase (take (length t) s) = toLowerCase t
      \<and> \<not> word_before prev
      \<and> \<not> word_after (drop (length t) s))"

text \<open>A term that begins and ends with a word character.\<close>

definition word_delimited :: "string \<Rightarrow> bool" where
  "word_delimited t = (t \<noteq> [] \<and> is_word_char (hd t) \<and> is_word_char (last t))"

text \<open>
  The pattern that the source of the mask pattern denotes: one alternative per entry of
  \<open>sortedTerms\<close>, the characters of the term between two word boundaries.
\<close>

definition term_alt :: "string \<Rightarrow> atom list" where
  "term_alt t = WordBoundary # map Ch t @ [WordBoundary]"

definition mask_regexp :: "glossary_row list \<Rightarrow> regexp" where
  "mask_regexp g = map (\<lambda>t. term_alt (mt_term t)) (sortedTerms g)"

text \<open>
  The alternative of a term matches at a position: the rest of the text starts with the term
  up to letter case, with the assertion \<open>\b\<close> before it and after it. For a term that begins or
  ends with a character that is not a word character this is not a whole-word occurrence:
  the assertion then asks for a word character next to that end of the term.
\<close>

definition anchored_at :: "string \<Rightarrow> char option \<Rightarrow> string \<Rightarrow> bool" where
  "anchored_at t prev s =
     (length t \<le> length s
      \<and> toLowerCase (take (length t) s) = toLowerCase t
      \<and> at_boundary prev s
      \<and> at_boundary (prev_of prev (take (length t) s)) (drop (length t) s))"

text \<open>The masking from a position of the text on, \<open>prev\<close> being the character before it.\<close>

definition mask_from :: "glossary_row list \<Rightarrow> char option \<Rightarrow> string \<Rightarrow> string" where
  "mask_from g prev s =
     concat (map (render (mask_callback (termLookup (sortedTerms g))))
                 (js_scan True (mask_regexp g) prev s))"




text \<open>No glossary term occurs as a whole word at a position inside \<open>pre\<close>, in the text \<open>pre @ rest\<close>.\<close>

fun unmatched :: "glossary_row list \<Rightarrow> char option \<Rightarrow> string \<Rightarrow> string \<Rightarrow> bool" where
  "unmatched g prev [] rest = True"
| "unmatched g prev (c # pre) rest =
     ((\<forall>t\<in>set g. \<not> whole_word_at (gl_term t) prev (c # pre @ rest))
      \<and> unmatched g (Some c) pre rest)"

text \<open>
  The glossaries of the round trip: every term begins and ends with a word character, every
  category matches \<open>[A-Za-z]+\<close>, every id matches \<open>[a-z0-9]+\<close>, the ids are pairwise distinct
  (the primary key) and so are the terms up to letter case.
\<close>

definition wf_glossary :: "glossary_row list \<Rightarrow> bool" where
  "wf_glossary g =
     ((\<forall>t\<in>set g. word_delimited (gl_term t) \<and> gl_id t \<noteq> [] \<and> list_all is_idchar (gl_id t)
          \<and> (\<exists>c. gl_category t = Some c \<and> c \<noteq> [] \<and> list_all is_alpha c))
      \<and> distinct (map gl_id g)
      \<and> distinct (map (\<lambda>t. toLowerCase (gl_term t)) g))"

text \<open>
  The texts of the round trip: no substring matches the placeholder grammar, and wherever a
  glossary term occurs as a whole word, ignoring case, it is spelled as in the glossary.
\<close>

definition no_placeholder :: "string \<Rightarrow> bool" where
  "no_placeholder s = (\<forall>pre ph post. s = pre @ ph @ post \<longrightarrow> \<not> is_placeholder ph)"

fun glossary_casing :: "glossary_row list \<Rightarrow> char option \<Rightarrow> string \<Rightarrow> bool" where
  "glossary_casing g prev [] = True"
| "glossary_casing g prev (c # cs) =
     ((\<forall>t\<in>set g. whole_word_at (gl_term t) prev (c # cs) \<longrightarrow>
          take (length (gl_term t)) (c # cs) = gl_term t)
      \<and> glossary_casing g (Some c) cs)"

text \<open>The records that the auto-fill of dest concerns: the source is a glossary term, ignoring case.\<close>

definition autofilled :: "glossary_row list \<Rightarrow> dialog_string \<Rightarrow> bool" where
  "autofilled g r =
     (case ds_source r of
        None \<Rightarrow> False
      | Some s \<Rightarrow> s \<noteq> [] \<and> toLowerCase s \<in> (\<lambda>t. toLowerCase (gl_term t)) ` set g)"

section \<open>Evaluation and character facts\<close>

lemmas cdefs = code_def is_AZ_def is_az_def is_digit_def is_alpha_def is_idchar_def
  is_word_char_def has_lower_def has_upper_def lower_char_def canonicalize_def toLowerCase_def
  char_matches_def is_critical_def is_syntax_char_def word_before_def word_after_def
  at_boundary_def

lemmas anomaly_defs = getAnomalyTypes_def isPunctuationMismatch_def getCriticalPunctuation_def
  js_replace_def isDLC_def isTechnical_def js_match_all_def

lemma all_char: "list_all P (Enum.enum :: char list) \<Longrightarrow> P (c::char)"
  using UNIV_enum [where ?'a = char] by (auto simp: list_all_iff)

lemma lower_canonicalize: "lower_char (canonicalize c) = lower_char c"
  by (rule all_char [where P = "\<lambda>c. lower_char (canonicalize c) = lower_char c"])
     (simp add: enum_char_def cdefs)

lemma canonicalize_lower: "canonicalize (lower_char c) = canonicalize c"
  by (rule all_char [where P = "\<lambda>c. canonicalize (lower_char c) = canonicalize c"])
     (simp add: enum_char_def cdefs)

text \<open>Under the flag \<open>i\<close> two characters match exactly when their lower-case forms agree.\<close>

lemma char_matches_ic: "char_matches True a c \<longleftrightarrow> lower_char a = lower_char c"
  unfolding char_matches_def using lower_canonicalize canonicalize_lower by (metis (full_types))

section \<open>Single-class patterns\<close>

lemma match_cls_single [simp]:
  "match_alts ic [[Cls P]] prev s =
     (case s of [] \<Rightarrow> None | c # cs \<Rightarrow> if P c then Some (Suc 0) else None)"
  by (cases s) auto

lemma match_ch_single [simp]:
  "match_alts False [[Ch a]] prev s =
     (case s of [] \<Rightarrow> None | c # cs \<Rightarrow> if a = c then Some (Suc 0) else None)"
  by (cases s) (auto simp: char_matches_def)

lemma js_test_cls: "js_test ic [[Cls P]] prev s \<longleftrightarrow> (\<exists>c\<in>set s. P c)"
  by (induction s arbitrary: prev) auto

lemma js_test_ch: "js_test False [[Ch a]] prev s \<longleftrightarrow> a \<in> set s"
  by (induction s arbitrary: prev) (auto simp: char_matches_def)

lemma js_scan_cls:
  "js_scan ic [[Cls P]] prev s = map (\<lambda>c. if P c then Hit [c] else Gap c) s"
  by (induction s arbitrary: prev) auto

lemma hits_cls:
  "hits (map (\<lambda>c. if P c then Hit [c] else Gap c) s) = map (\<lambda>c. [c]) (filter P s)"
  by (induction s) auto

lemma delete_cls:
  "concat (map (render (\<lambda>m. [])) (js_scan ic [[Cls P]] prev s)) = filter (\<lambda>c. \<not> P c) s"
  by (induction s arbitrary: prev) auto

lemma getCriticalPunctuation_filter: "getCriticalPunctuation s = filter is_critical s"
  by (simp add: getCriticalPunctuation_def js_replace_def delete_cls)

lemma count_cls: "length (js_match_all ic [[Cls P]] s) = length (filter P s)"
  by (simp add: js_match_all_def js_scan_cls hits_cls)

section \<open>The anomaly classifier\<close>

text \<open>
  Claim C3. For every source and every dest (a string or \<open>null\<close>), \<open>getAnomalyTypes\<close> contains
  \<open>MISSING\<close> exactly when dest is \<open>null\<close> or empty, and \<open>SAME\<close> exactly when dest is non-empty
  and equal to source; the two never occur together; \<open>PUNCTUATION\<close> occurs only when dest is
  non-empty and differs from source, hence never together with \<open>MISSING\<close> or \<open>SAME\<close>.
\<close>

theorem getAnomalyTypes_missing_same:
  "(MISSING \<in> set (getAnomalyTypes source dest) \<longleftrightarrow> (dest = None \<or> dest = Some []))
   \<and> (SAME \<in> set (getAnomalyTypes source dest) \<longleftrightarrow>
        (dest \<noteq> None \<and> dest \<noteq> Some [] \<and> dest = Some source))
   \<and> \<not> (MISSING \<in> set (getAnomalyTypes source dest) \<and> SAME \<in> set (getAnomalyTypes source dest))
   \<and> (PUNCTUATION \<in> set (getAnomalyTypes source dest) \<longrightarrow>
         dest \<noteq> None \<and> dest \<noteq> Some [] \<and> dest \<noteq> Some source
         \<and> MISSING \<notin> set (getAnomalyTypes source dest)
         \<and> SAME \<notin> set (getAnomalyTypes source dest))"
  by (auto simp: getAnomalyTypes_def split: option.splits if_splits)

theorem getAnomalyTypes_missing_same_witness:
  "PUNCTUATION \<in> set (getAnomalyTypes ''He said <Tag>'' (Some ''Il a dit Tag''))
   \<and> MISSING \<notin> set (getAnomalyTypes ''He said <Tag>'' (Some ''Il a dit Tag''))
   \<and> SAME \<notin> set (getAnomalyTypes ''He said <Tag>'' (Some ''Il a dit Tag''))"
proof -
  have p: "PUNCTUATION \<in> set (getAnomalyTypes ''He said <Tag>'' (Some ''Il a dit Tag''))"
    by (simp add: anomaly_defs cdefs)
  show ?thesis
    using p getAnomalyTypes_missing_same [of "''He said <Tag>''" "Some ''Il a dit Tag''"]
    by blast
qed

text \<open>
  Claim C7. \<open>isTechnical\<close> is false for a text with a space; otherwise it is true exactly when
  the text has an upper-case letter and, besides, a digit, an underscore or more than one
  upper-case letter.
\<close>

theorem isTechnical_iff:
  "isTechnical text \<longleftrightarrow>
     (CHR '' '' \<notin> set text \<and> (\<exists>c\<in>set text. is_AZ c) \<and>
      ((\<exists>c\<in>set text. is_digit c) \<or> CHR ''_'' \<in> set text \<or> length (filter is_AZ text) > 1))"
  by (simp add: isTechnical_def Let_def js_test_cls js_test_ch count_cls)

theorem isTechnical_iff_witness:
  "isTechnical ''FemaleHeadWoodElfVampire'' \<and> \<not> isTechnical ''Female Head Wood Elf Vampire''"
  using isTechnical_iff [of "''FemaleHeadWoodElfVampire''"]
        isTechnical_iff [of "''Female Head Wood Elf Vampire''"]
  by (simp add: cdefs)

text \<open>
  Claim C8. For a non-empty dest, \<open>isPunctuationMismatch\<close> is true exactly when the
  subsequence of the characters \<open><\<close>, \<open>>\<close> and double quote of source (in order, with
  multiplicity) differs from that of dest; for an empty dest it is false.
\<close>

theorem isPunctuationMismatch_iff:
  "(dest \<noteq> [] \<longrightarrow>
      isPunctuationMismatch source dest =
        (filter is_critical source \<noteq> filter is_critical dest))
   \<and> isPunctuationMismatch source [] = False"
  by (simp add: isPunctuationMismatch_def getCriticalPunctuation_filter)

theorem isPunctuationMismatch_iff_witness:
  "isPunctuationMismatch ''He said <Tag>'' ''Il a dit Tag''
   \<and> filter is_critical ''He said <Tag>'' = ''<>''
   \<and> filter is_critical ''Il a dit Tag'' = []"
  using isPunctuationMismatch_iff [of "''Il a dit Tag''" "''He said <Tag>''"]
  by (simp add: cdefs)

section \<open>The DLC pattern\<close>

lemma js_test_iff:
  "js_test ic re prev s \<longleftrightarrow>
     (\<exists>pre suf. s = pre @ suf
        \<and> match_alts ic re (if pre = [] then prev else Some (last pre)) suf \<noteq> None)"
proof (induction s arbitrary: prev)
  case Nil
  then show ?case by simp
next
  case (Cons c cs)
  show ?case
  proof
    assume "js_test ic re prev (c # cs)"
    then consider "match_alts ic re prev (c # cs) \<noteq> None" | "js_test ic re (Some c) cs"
      by auto
    then show "\<exists>pre suf. c # cs = pre @ suf
        \<and> match_alts ic re (if pre = [] then prev else Some (last pre)) suf \<noteq> None"
    proof cases
      case 1
      then have "c # cs = [] @ (c # cs)
          \<and> match_alts ic re (if [] = [] then prev else Some (last [])) (c # cs) \<noteq> None"
        by simp
      then show ?thesis by blast
    next
      case 2
      then obtain pre suf where ps: "cs = pre @ suf"
          "match_alts ic re (if pre = [] then Some c else Some (last pre)) suf \<noteq> None"
        using Cons.IH by blast
      then have "c # cs = (c # pre) @ suf
          \<and> match_alts ic re (if c # pre = [] then prev else Some (last (c # pre))) suf \<noteq> None"
        by auto
      then show ?thesis by blast
    qed
  next
    assume "\<exists>pre suf. c # cs = pre @ suf
        \<and> match_alts ic re (if pre = [] then prev else Some (last pre)) suf \<noteq> None"
    then obtain pre suf where ps: "c # cs = pre @ suf"
        "match_alts ic re (if pre = [] then prev else Some (last pre)) suf \<noteq> None"
      by blast
    show "js_test ic re prev (c # cs)"
    proof (cases pre)
      case Nil
      with ps have "match_alts ic re prev (c # cs) \<noteq> None" by simp
      then show ?thesis by simp
    next
      case (Cons x pre')
      with ps have "cs = pre' @ suf"
          "match_alts ic re (if pre' = [] then Some c else Some (last pre')) suf \<noteq> None"
        by (auto split: if_splits)
      then have "js_test ic re (Some c) cs" using Cons.IH by blast
      then show ?thesis by simp
    qed
  qed
qed

lemma match_plus_last:
  "match_atoms ic [Plus P] prev s \<noteq> None \<longleftrightarrow> (\<exists>c cs. s = c # cs \<and> P c)"
  by (cases s) (auto split: option.splits)

lemma match_ch_cons:
  "match_atoms ic (Ch a # as) prev s \<noteq> None \<longleftrightarrow>
     (\<exists>c cs. s = c # cs \<and> char_matches ic a c \<and> match_atoms ic as (Some c) cs \<noteq> None)"
  by (cases s) auto

lemma match_dlc:
  "match_alts True [[Ch CHR ''D'', Ch CHR ''L'', Ch CHR ''C'', Plus is_digit]] prev s \<noteq> None \<longleftrightarrow>
     (\<exists>w d rest. s = w @ d # rest \<and> toLowerCase w = ''dlc'' \<and> is_digit d)"
proof -
  have low: "lower_char CHR ''D'' = CHR ''d''" "lower_char CHR ''L'' = CHR ''l''"
      "lower_char CHR ''C'' = CHR ''c''"
    by (simp_all add: cdefs)
  have "match_alts True [[Ch CHR ''D'', Ch CHR ''L'', Ch CHR ''C'', Plus is_digit]] prev s \<noteq> None \<longleftrightarrow>
     match_atoms True [Ch CHR ''D'', Ch CHR ''L'', Ch CHR ''C'', Plus is_digit] prev s \<noteq> None"
    by (simp split: option.splits)
  also have "\<dots> \<longleftrightarrow> (\<exists>a b c d rest. s = a # b # c # d # rest \<and> lower_char a = CHR ''d''
       \<and> lower_char b = CHR ''l'' \<and> lower_char c = CHR ''c'' \<and> is_digit d)"
    unfolding match_ch_cons match_plus_last char_matches_ic low by (auto simp: eq_commute)
  also have "\<dots> \<longleftrightarrow> (\<exists>w d rest. s = w @ d # rest \<and> toLowerCase w = ''dlc'' \<and> is_digit d)"
  proof
    assume "\<exists>a b c d rest. s = a # b # c # d # rest \<and> lower_char a = CHR ''d''
       \<and> lower_char b = CHR ''l'' \<and> lower_char c = CHR ''c'' \<and> is_digit d"
    then obtain a b c d rest where "s = [a, b, c] @ d # rest"
        "toLowerCase [a, b, c] = ''dlc''" "is_digit d"
      by (auto simp: toLowerCase_def)
    then show "\<exists>w d rest. s = w @ d # rest \<and> toLowerCase w = ''dlc'' \<and> is_digit d" by blast
  next
    assume "\<exists>w d rest. s = w @ d # rest \<and> toLowerCase w = ''dlc'' \<and> is_digit d"
    then obtain w d rest where w: "s = w @ d # rest" "toLowerCase w = ''dlc''" "is_digit d"
      by blast
    from w(2) obtain a b c where "w = [a, b, c]" "lower_char a = CHR ''d''"
        "lower_char b = CHR ''l''" "lower_char c = CHR ''c''"
      by (auto simp: toLowerCase_def map_eq_Cons_conv)
    with w show "\<exists>a b c d rest. s = a # b # c # d # rest \<and> lower_char a = CHR ''d''
       \<and> lower_char b = CHR ''l'' \<and> lower_char c = CHR ''c'' \<and> is_digit d" by auto
  qed
  finally show ?thesis .
qed

lemma dlc_regex:
  "js_test True [[Ch CHR ''D'', Ch CHR ''L'', Ch CHR ''C'', Plus is_digit]] None text \<longleftrightarrow>
     (\<exists>pre w ds post. text = pre @ w @ ds @ post \<and> toLowerCase w = ''dlc''
        \<and> ds \<noteq> [] \<and> (\<forall>d\<in>set ds. is_digit d))"
  (is "?L \<longleftrightarrow> ?R")
proof
  assume ?L
  then obtain pre w d rest where "text = pre @ w @ [d] @ rest" "toLowerCase w = ''dlc''"
      "is_digit d"
    unfolding js_test_iff match_dlc by auto
  then have "text = pre @ w @ [d] @ rest \<and> toLowerCase w = ''dlc'' \<and> [d] \<noteq> []
      \<and> (\<forall>x\<in>set [d]. is_digit x)"
    by simp
  then show ?R by blast
next
  assume ?R
  then obtain pre w ds post where r: "text = pre @ w @ ds @ post" "toLowerCase w = ''dlc''"
      "ds \<noteq> []" "\<forall>d\<in>set ds. is_digit d"
    by blast
  then obtain d ds' where ds: "ds = d # ds'" by (cases ds) auto
  with r have "text = pre @ (w @ d # (ds' @ post))" "is_digit d" by auto
  with r(2) have "\<exists>suf. text = pre @ suf
      \<and> (\<exists>w d rest. suf = w @ d # rest \<and> toLowerCase w = ''dlc'' \<and> is_digit d)"
    by blast
  then show ?L unfolding js_test_iff match_dlc by blast
qed

text \<open>
  Claim C9. \<open>isDLC\<close> is true exactly when the text contains \<open>DLC\<close> in any letter case followed
  at once by one or more digits, or starts with the literal \<open>DLC\<close>. The tag is decided by the
  source alone, whatever dest is, and occurs together with each of the dest-dependent tags.
\<close>

theorem isDLC_iff:
  "(isDLC text \<longleftrightarrow>
      ((\<exists>pre w ds post. text = pre @ w @ ds @ post \<and> toLowerCase w = ''dlc''
           \<and> ds \<noteq> [] \<and> (\<forall>d\<in>set ds. is_digit d))
       \<or> prefix ''DLC'' text))
   \<and> (DLC \<in> set (getAnomalyTypes text dest) \<longleftrightarrow> isDLC text)
   \<and> getAnomalyTypes ''DLC01Quest'' None = [MISSING, DLC, TECHNICAL]
   \<and> getAnomalyTypes ''dlc2 <x>'' (Some ''dlc2 <x>'') = [SAME, DLC]
   \<and> getAnomalyTypes ''dlc2 <x>'' (Some ''dlc2 x'') = [PUNCTUATION, DLC]"
proof -
  have "getAnomalyTypes ''DLC01Quest'' None = [MISSING, DLC, TECHNICAL]"
    by (simp add: anomaly_defs cdefs)
  moreover have "getAnomalyTypes ''dlc2 <x>'' (Some ''dlc2 <x>'') = [SAME, DLC]"
    by (simp add: anomaly_defs cdefs)
  moreover have "getAnomalyTypes ''dlc2 <x>'' (Some ''dlc2 x'') = [PUNCTUATION, DLC]"
    by (simp add: anomaly_defs cdefs)
  moreover have "DLC \<in> set (getAnomalyTypes text dest) \<longleftrightarrow> isDLC text"
    by (simp add: getAnomalyTypes_def split: option.splits)
  moreover have "isDLC text \<longleftrightarrow>
      ((\<exists>pre w ds post. text = pre @ w @ ds @ post \<and> toLowerCase w = ''dlc''
           \<and> ds \<noteq> [] \<and> (\<forall>d\<in>set ds. is_digit d))
       \<or> prefix ''DLC'' text)"
    by (simp add: isDLC_def dlc_regex)
  ultimately show ?thesis by blast
qed

theorem isDLC_iff_witness:
  "isDLC ''The dlc01 quest'' \<and> isDLC ''DLC quest'' \<and> \<not> isDLC ''Ordinary Sentence''"
proof -
  have "''The dlc01 quest'' = ''The '' @ ''dlc'' @ ''01'' @ '' quest'' \<and> toLowerCase ''dlc'' = ''dlc''
      \<and> ''01'' \<noteq> [] \<and> (\<forall>d\<in>set ''01''. is_digit d)"
    by (simp add: cdefs)
  then have 1: "\<exists>pre w ds post. ''The dlc01 quest'' = pre @ w @ ds @ post \<and> toLowerCase w = ''dlc''
           \<and> ds \<noteq> [] \<and> (\<forall>d\<in>set ds. is_digit d)"
    by blast
  have 2: "prefix ''DLC'' ''DLC quest''" by simp
  have 3: "\<not> isDLC ''Ordinary Sentence''" by (simp add: isDLC_def cdefs)
  show ?thesis
    using 1 2 3 isDLC_iff [of "''The dlc01 quest''" None] isDLC_iff [of "''DLC quest''" None]
    by blast
qed

section \<open>Unmasking\<close>

lemmas mdefs = maskText_def sortedTerms_def to_mask_term_def termLookup_def escapedTerms_def
  escapeRegExp_def js_replace_def mask_callback_def unmaskText_def unmask_callback_def
  unmask_pattern_def loadGlossaryCache_def cache_key_def

lemma match_plus_ch_run:
  assumes "\<not> P d" "xs \<noteq> []" "list_all P xs"
  shows "match_atoms False (Plus P # Ch d # as) prev (xs @ d # r) =
           map_option (\<lambda>n. length xs + Suc n) (match_atoms False as (Some d) r)"
  using assms(2,3)
proof (induction xs arbitrary: prev)
  case Nil
  then show ?case by simp
next
  case (Cons x xs)
  then have Px: "P x" by simp
  show ?case
  proof (cases xs)
    case Nil
    then show ?thesis using Px assms(1)
      by (simp add: char_matches_def option.map_comp comp_def)
  next
    case (Cons y ys)
    with Cons.prems have "P y" by simp
    then have "y \<noteq> d" using assms(1) by auto
    then have fb: "match_atoms False (Ch d # as) (Some x) (xs @ d # r) = None"
      using Cons by (simp add: char_matches_def)
    have ih: "match_atoms False (Plus P # Ch d # as) (Some x) (xs @ d # r) =
           map_option (\<lambda>n. length xs + Suc n) (match_atoms False as (Some d) r)"
      using Cons.IH [of "Some x"] Cons Cons.prems by simp
    show ?thesis
      using Px fb ih by (cases "match_atoms False as (Some d) r") simp_all
  qed
qed

lemma match_plus_ch_inv:
  assumes "\<not> P d"
  shows "match_atoms False (Plus P # Ch d # as) prev s = Some n \<Longrightarrow>
         \<exists>xs r m. s = xs @ d # r \<and> xs \<noteq> [] \<and> list_all P xs
            \<and> match_atoms False as (Some d) r = Some m \<and> n = length xs + Suc m"
proof (induction s arbitrary: prev n)
  case Nil
  then show ?case by simp
next
  case (Cons c cs)
  then have Pc: "P c" by (simp split: if_splits)
  show ?case
  proof (cases "match_atoms False (Plus P # Ch d # as) (Some c) cs")
    case (Some k)
    with Cons.prems Pc have n: "n = Suc k" by simp
    from Cons.IH [OF Some] obtain xs r m where
      "cs = xs @ d # r" "xs \<noteq> []" "list_all P xs" "match_atoms False as (Some d) r = Some m"
      "k = length xs + Suc m" by blast
    then have "c # cs = (c # xs) @ d # r \<and> c # xs \<noteq> [] \<and> list_all P (c # xs)
       \<and> match_atoms False as (Some d) r = Some m \<and> n = length (c # xs) + Suc m"
      using Pc n by simp
    then show ?thesis by blast
  next
    case None
    with Cons.prems Pc obtain k where k: "match_atoms False (Ch d # as) (Some c) cs = Some k" "n = Suc k"
      by auto
    then obtain r m where "cs = d # r" "match_atoms False as (Some d) r = Some m" "k = Suc m"
      by (cases cs) (auto simp: char_matches_def split: if_splits)
    then have "c # cs = [c] @ d # r \<and> [c] \<noteq> [] \<and> list_all P [c]
       \<and> match_atoms False as (Some d) r = Some m \<and> n = length [c] + Suc m"
      using Pc k by simp
    then show ?thesis by blast
  qed
qed

lemma not_alpha_us: "\<not> is_alpha CHR ''_''" by (simp add: cdefs)
lemma not_idchar_rb: "\<not> is_idchar CHR '']''" by (simp add: cdefs)

lemma match_placeholder:
  assumes "is_placeholder ph"
  shows "match_alts False unmask_pattern prev (ph @ rest) = Some (length ph)"
proof -
  from assms obtain cat ident where ph: "ph = ''['' @ cat @ ''_'' @ ident @ '']''"
    "cat \<noteq> []" "list_all is_alpha cat" "ident \<noteq> []" "list_all is_idchar ident"
    unfolding is_placeholder_def by blast
  have 1: "match_atoms False [Plus is_idchar, Ch CHR '']''] (Some CHR ''_'') (ident @ CHR '']'' # rest)
      = Some (length ident + 1)"
    using match_plus_ch_run [OF not_idchar_rb ph(4,5), of "[]" "Some CHR ''_''" rest] by simp
  have 2: "match_atoms False [Plus is_alpha, Ch CHR ''_'', Plus is_idchar, Ch CHR '']''] (Some CHR ''['')
       (cat @ CHR ''_'' # (ident @ CHR '']'' # rest)) = Some (length cat + Suc (length ident + 1))"
    using match_plus_ch_run [OF not_alpha_us ph(2,3), of "[Plus is_idchar, Ch CHR '']'']" "Some CHR ''[''" "ident @ CHR '']'' # rest"] 1
    by simp
  show ?thesis unfolding unmask_pattern_def ph(1) using 2 by (simp add: char_matches_def)
qed

lemma match_unmask_inv:
  assumes "match_alts False unmask_pattern prev s = Some n"
  shows "\<exists>ph rest. s = ph @ rest \<and> is_placeholder ph \<and> n = length ph"
proof -
  from assms have m: "match_atoms False [Ch CHR ''['', Plus is_alpha, Ch CHR ''_'', Plus is_idchar, Ch CHR '']''] prev s = Some n"
    unfolding unmask_pattern_def by (simp split: option.splits)
  then obtain s1 k where s: "s = CHR ''['' # s1" and
     k: "match_atoms False [Plus is_alpha, Ch CHR ''_'', Plus is_idchar, Ch CHR '']''] (Some CHR ''['') s1 = Some k" "n = Suc k"
    by (cases s) (auto simp: char_matches_def split: if_splits)
  from match_plus_ch_inv [OF not_alpha_us k(1)] obtain cat s2 j where
    c: "s1 = cat @ CHR ''_'' # s2" "cat \<noteq> []" "list_all is_alpha cat"
       "match_atoms False [Plus is_idchar, Ch CHR '']''] (Some CHR ''_'') s2 = Some j" "k = length cat + Suc j"
    by blast
  from match_plus_ch_inv [OF not_idchar_rb c(4)] obtain ident s3 i where
    d: "s2 = ident @ CHR '']'' # s3" "ident \<noteq> []" "list_all is_idchar ident" "j = length ident + Suc i"
       "match_atoms False [] (Some CHR '']'') s3 = Some i"
    by blast
  then have i: "i = 0" by simp
  let ?ph = "''['' @ cat @ ''_'' @ ident @ '']''"
  have "s = ?ph @ s3" using s c(1) d(1) by simp
  moreover have "is_placeholder ?ph" unfolding is_placeholder_def using c(2,3) d(2,3) by blast
  moreover have "n = length ?ph" using k(2) c(5) d(4) i by simp
  ultimately show ?thesis by blast
qed

lemma match_unmask_prev: "match_alts False unmask_pattern prev s = match_alts False unmask_pattern None s"
  unfolding unmask_pattern_def by (cases s) (simp_all split: option.splits)

lemma scan_unmask_prev: "js_scan False unmask_pattern prev s = js_scan False unmask_pattern None s"
  by (cases s) (simp_all add: match_unmask_prev [of prev])

lemma match_unmask_no_bracket:
  "c \<noteq> CHR ''['' \<Longrightarrow> match_alts False unmask_pattern prev (c # s) = None"
  unfolding unmask_pattern_def by (simp add: char_matches_def)

lemma unmask_Nil: "unmaskText [] cache = []"
  by (simp add: unmaskText_def js_replace_def unmask_pattern_def)

lemma unmask_Cons_nomatch:
  "match_alts False unmask_pattern None (c # s) = None \<Longrightarrow>
   unmaskText (c # s) cache = c # unmaskText s cache"
  by (simp add: unmaskText_def js_replace_def scan_unmask_prev [of "Some c"])

lemma unmask_Cons: "c \<noteq> CHR ''['' \<Longrightarrow> unmaskText (c # s) cache = c # unmaskText s cache"
  by (simp add: unmask_Cons_nomatch match_unmask_no_bracket)

lemma unmask_plain_append:
  "CHR ''['' \<notin> set w \<Longrightarrow> unmaskText (w @ s) cache = w @ unmaskText s cache"
proof (induction w)
  case Nil
  then show ?case by simp
next
  case (Cons a w)
  then have "a \<noteq> CHR ''[''" by auto
  then show ?case using Cons by (simp add: unmask_Cons)
qed

lemma placeholder_shape:
  "is_placeholder ph \<Longrightarrow> \<exists>t. ph = CHR ''['' # t \<and> CHR ''['' \<notin> set t"
proof -
  assume "is_placeholder ph"
  then obtain cat ident where ph: "ph = ''['' @ cat @ ''_'' @ ident @ '']''"
    "list_all is_alpha cat" "list_all is_idchar ident"
    unfolding is_placeholder_def by blast
  have "\<not> is_alpha CHR ''[''" "\<not> is_idchar CHR ''[''" by (simp_all add: cdefs)
  then have "CHR ''['' \<notin> set cat" "CHR ''['' \<notin> set ident"
    using ph(2,3) by (auto simp: list_all_iff)
  then show ?thesis using ph(1) by simp
qed

lemma unmask_placeholder_append:
  assumes "is_placeholder ph"
  shows "unmaskText (ph @ s) cache = unmask_callback cache ph @ unmaskText s cache"
proof -
  from placeholder_shape [OF assms] obtain t where t: "ph = CHR ''['' # t" by blast
  have m: "match_alts False unmask_pattern None (CHR ''['' # t @ s) = Some (Suc (length t))"
    using match_placeholder [OF assms, of None s] t by simp
  show ?thesis
    unfolding unmaskText_def js_replace_def t
    using m by (simp add: scan_unmask_prev [of "Some _"])
qed

lemma unmask_append_bracket:
  assumes "b = [] \<or> hd b = CHR ''[''"
  shows "unmaskText (a @ b) cache = unmaskText a cache @ unmaskText b cache"
proof (induction a rule: length_induct)
  case (1 a)
  show ?case
  proof (cases a)
    case Nil
    then show ?thesis by (simp add: unmask_Nil)
  next
    case (Cons c cs)
    show ?thesis
    proof (cases "match_alts False unmask_pattern None a")
      case (Some n)
      from match_unmask_inv [OF Some] obtain ph rest where
        a: "a = ph @ rest" "is_placeholder ph" by blast
      from placeholder_shape [OF a(2)] have "ph \<noteq> []" by auto
      then have "length rest < length a" using a(1) by simp
      then have "unmaskText (rest @ b) cache = unmaskText rest cache @ unmaskText b cache"
        using 1 by blast
      then show ?thesis
        using unmask_placeholder_append [OF a(2), of "rest @ b" cache]
              unmask_placeholder_append [OF a(2), of rest cache] a(1) by simp
    next
      case None
      have "match_alts False unmask_pattern None (a @ b) = None"
      proof (rule ccontr)
        assume "match_alts False unmask_pattern None (a @ b) \<noteq> None"
        then obtain n where "match_alts False unmask_pattern None (a @ b) = Some n" by auto
        from match_unmask_inv [OF this] obtain ph rest where
          p: "a @ b = ph @ rest" "is_placeholder ph" by blast
        from placeholder_shape [OF p(2)] obtain t where t: "ph = CHR ''['' # t" "CHR ''['' \<notin> set t"
          by blast
        from p(1) obtain us where us: "(a = ph @ us \<and> us @ b = rest) \<or> (a @ us = ph \<and> b = us @ rest)"
          unfolding append_eq_append_conv2 by blast
        then show False
        proof
          assume "a = ph @ us \<and> us @ b = rest"
          then show False using match_placeholder [OF p(2), of None us] None by simp
        next
          assume h: "a @ us = ph \<and> b = us @ rest"
          show False
          proof (cases us)
            case Nil
            then show ?thesis using h match_placeholder [OF p(2), of None "[]"] None by simp
          next
            case (Cons u us')
            then have "u = CHR ''[''" using h assms by auto
            moreover have "u \<in> set t" using h t(1) Cons \<open>a = c # cs\<close> by auto
            ultimately show ?thesis using t(2) by simp
          qed
        qed
      qed
      then have "unmaskText (a @ b) cache = c # unmaskText (cs @ b) cache"
        using Cons unmask_Cons_nomatch [of c "cs @ b" cache] by simp
      moreover have "unmaskText a cache = c # unmaskText cs cache"
        using None Cons unmask_Cons_nomatch [of c cs cache] by simp
      moreover have "unmaskText (cs @ b) cache = unmaskText cs cache @ unmaskText b cache"
        using 1 Cons by simp
      ultimately show ?thesis by simp
    qed
  qed
qed

lemma unmask_no_placeholder:
  "(\<forall>pre ph post. s = pre @ ph @ post \<longrightarrow> \<not> is_placeholder ph) \<Longrightarrow> unmaskText s cache = s"
proof (induction s)
  case Nil
  then show ?case by (simp add: unmask_Nil)
next
  case (Cons c cs)
  have "match_alts False unmask_pattern None (c # cs) = None"
  proof (rule ccontr)
    assume "match_alts False unmask_pattern None (c # cs) \<noteq> None"
    then obtain n where "match_alts False unmask_pattern None (c # cs) = Some n" by auto
    from match_unmask_inv [OF this] obtain ph rest where "c # cs = [] @ ph @ rest" "is_placeholder ph"
      by auto
    then show False using Cons.prems by blast
  qed
  moreover have "\<forall>pre ph post. cs = pre @ ph @ post \<longrightarrow> \<not> is_placeholder ph"
  proof (intro allI impI)
    fix pre ph post assume "cs = pre @ ph @ post"
    then have "c # cs = (c # pre) @ ph @ post" by simp
    then show "\<not> is_placeholder ph" using Cons.prems by blast
  qed
  ultimately show ?case using Cons.IH unmask_Cons_nomatch by simp
qed

lemma no_bracket_no_placeholder:
  assumes "CHR ''['' \<notin> set s"
  shows "\<forall>pre ph post. s = pre @ ph @ post \<longrightarrow> \<not> is_placeholder ph"
proof (intro allI impI notI)
  fix pre ph post assume s: "s = pre @ ph @ post" and "is_placeholder ph"
  from placeholder_shape [OF this(2)] have "CHR ''['' \<in> set ph" by auto
  then show False using assms s by simp
qed

text \<open>
  Claim C6, as amended. A bracketed substring that matches the placeholder grammar is
  replaced by the term cached under it when that term is not empty, and stays verbatim when
  the cache has no entry for it or caches the empty string; the text before and after it is
  unmasked on its own. A text without a substring matching the grammar comes back unchanged.
\<close>

theorem unmask_fail_open:
  "(is_placeholder ph \<longrightarrow>
      unmaskText (pre @ ph @ post) cache =
        unmaskText pre cache
        @ (case cache ph of None \<Rightarrow> ph | Some t \<Rightarrow> if t = [] then ph else t)
        @ unmaskText post cache)
   \<and> ((\<forall>pre ph post. text = pre @ ph @ post \<longrightarrow> \<not> is_placeholder ph) \<longrightarrow>
        unmaskText text cache = text)"
proof (intro conjI impI)
  assume p: "is_placeholder ph"
  from placeholder_shape [OF p] have "hd (ph @ post) = CHR ''[''" by auto
  then have "unmaskText (pre @ ph @ post) cache = unmaskText pre cache @ unmaskText (ph @ post) cache"
    using unmask_append_bracket by blast
  then show "unmaskText (pre @ ph @ post) cache =
        unmaskText pre cache
        @ (case cache ph of None \<Rightarrow> ph | Some t \<Rightarrow> if t = [] then ph else t)
        @ unmaskText post cache"
    using unmask_placeholder_append [OF p, of post cache] by (simp add: unmask_callback_def)
next
  assume "\<forall>pre ph post. text = pre @ ph @ post \<longrightarrow> \<not> is_placeholder ph"
  then show "unmaskText text cache = text" by (rule unmask_no_placeholder)
qed

theorem unmask_fail_open_witness:
  "unmaskText ''Go to [Location_a1], not [Name_zz9]!''
     (loadGlossaryCache [\<lparr>gl_id = ''a1'', gl_term = ''Whiterun'', gl_category = Some ''Location''\<rparr>])
     = ''Go to Whiterun, not [Name_zz9]!''
   \<and> unmaskText ''plain text''
     (loadGlossaryCache [\<lparr>gl_id = ''a1'', gl_term = ''Whiterun'', gl_category = Some ''Location''\<rparr>])
     = ''plain text''"
proof -
  let ?C = "loadGlossaryCache [\<lparr>gl_id = ''a1'', gl_term = ''Whiterun'', gl_category = Some ''Location''\<rparr>]"
  have p1: "is_placeholder ''[Location_a1]''"
    unfolding is_placeholder_def
    by (rule exI [of _ "''Location''"], rule exI [of _ "''a1''"]) (simp add: cdefs)
  have p2: "is_placeholder ''[Name_zz9]''"
    unfolding is_placeholder_def
    by (rule exI [of _ "''Name''"], rule exI [of _ "''zz9''"]) (simp add: cdefs)
  have plain: "\<forall>pre ph post. ''plain text'' = pre @ ph @ post \<longrightarrow> \<not> is_placeholder ph"
    by (rule no_bracket_no_placeholder) simp
  have c1: "?C ''[Location_a1]'' = Some ''Whiterun''" "?C ''[Name_zz9]'' = None"
    by (simp_all add: loadGlossaryCache_def cache_key_def)
  have e: "unmaskText ''Go to '' ?C = ''Go to ''" "unmaskText '', not '' ?C = '', not ''"
      "unmaskText ''!'' ?C = ''!''"
    by (simp_all add: unmaskText_def js_replace_def unmask_pattern_def char_matches_def)
  have "unmaskText (''Go to '' @ ''[Location_a1]'' @ '', not [Name_zz9]!'') ?C =
      ''Go to '' @ ''Whiterun'' @ unmaskText ('', not '' @ ''[Name_zz9]'' @ ''!'') ?C"
    using unmask_fail_open [of "''[Location_a1]''" "''Go to ''" "'', not [Name_zz9]!''" ?C "''plain text''"]
      p1 c1 e by simp
  moreover have "unmaskText ('', not '' @ ''[Name_zz9]'' @ ''!'') ?C = '', not '' @ ''[Name_zz9]'' @ ''!''"
    using unmask_fail_open [of "''[Name_zz9]''" "'', not ''" "''!''" ?C "''plain text''"]
      p2 c1 e by simp
  moreover have "unmaskText ''plain text'' ?C = ''plain text''"
    using unmask_fail_open [of "''[Name_zz9]''" "'', not ''" "''!''" ?C "''plain text''"] plain
    by blast
  ultimately show ?thesis by simp
qed

text \<open>
  The claim as stated fails for a cache that stores the empty string: the placeholder is a
  key of the cache, and it is not replaced by the cached term.
\<close>

theorem unmask_fail_open_counterexample:
  "is_placeholder ''[A_b]''
   \<and> loadGlossaryCache [\<lparr>gl_id = ''b'', gl_term = [], gl_category = Some ''A''\<rparr>] ''[A_b]'' = Some []
   \<and> unmaskText ''[A_b]'' (loadGlossaryCache [\<lparr>gl_id = ''b'', gl_term = [], gl_category = Some ''A''\<rparr>])
       = ''[A_b]''"
proof -
  have "is_placeholder ''[A_b]''"
    unfolding is_placeholder_def
    by (rule exI [of _ "''A''"], rule exI [of _ "''b''"]) (simp add: cdefs)
  then show ?thesis by (simp add: mdefs cdefs)
qed

lemma well_bracketed_append: "well_bracketed (a @ b) \<Longrightarrow> well_bracketed b"
  by (induction a) auto

text \<open>
  Claim C10, as amended. When no term stored in the cache contains an opening bracket, and
  every opening bracket of the text starts a well-formed placeholder, unmasking twice gives
  the same as unmasking once.
\<close>

theorem unmask_idempotent:
  assumes "\<forall>k t. cache k = Some t \<longrightarrow> CHR ''['' \<notin> set t"
    and "well_bracketed x"
  shows "unmaskText (unmaskText x cache) cache = unmaskText x cache"
  using assms(2)
proof (induction x rule: length_induct)
  case (1 x)
  show ?case
  proof (cases x)
    case Nil
    then show ?thesis by (simp add: unmask_Nil)
  next
    case (Cons c cs)
    show ?thesis
    proof (cases "c = CHR ''[''")
      case False
      have "well_bracketed cs" using "1.prems" Cons by simp
      then have "unmaskText (unmaskText cs cache) cache = unmaskText cs cache"
        using 1 Cons by simp
      then show ?thesis using False Cons by (simp add: unmask_Cons)
    next
      case True
      then have "starts_placeholder x" using "1.prems" Cons by simp
      then obtain ph rest where x: "x = ph @ rest" "is_placeholder ph"
        unfolding starts_placeholder_def by blast
      from placeholder_shape [OF x(2)] have "ph \<noteq> []" by auto
      then have "length rest < length x" using x(1) by simp
      moreover have "well_bracketed rest" using "1.prems" x(1) well_bracketed_append by blast
      ultimately have ih: "unmaskText (unmaskText rest cache) cache = unmaskText rest cache"
        using 1 by blast
      have ux: "unmaskText x cache = unmask_callback cache ph @ unmaskText rest cache"
        using unmask_placeholder_append [OF x(2)] x(1) by simp
      have "unmask_callback cache ph = ph \<or> (\<exists>t. cache ph = Some t \<and> unmask_callback cache ph = t)"
        by (cases "cache ph") (simp_all add: unmask_callback_def)
      then consider (kept) "unmask_callback cache ph = ph"
        | (repl) t where "cache ph = Some t" "unmask_callback cache ph = t"
        by blast
      then show ?thesis
      proof cases
        case kept
        then show ?thesis using ux ih unmask_placeholder_append [OF x(2), of "unmaskText rest cache" cache]
          by simp
      next
        case repl
        then have "CHR ''['' \<notin> set t" using assms(1) by blast
        then show ?thesis using ux ih repl unmask_plain_append [of t "unmaskText rest cache" cache]
          by simp
      qed
    qed
  qed
qed

theorem unmask_idempotent_witness:
  "unmaskText (unmaskText ''[Location_a1] is [Name_zz9]!''
       (loadGlossaryCache [\<lparr>gl_id = ''a1'', gl_term = ''Whiterun'', gl_category = Some ''Location''\<rparr>]))
     (loadGlossaryCache [\<lparr>gl_id = ''a1'', gl_term = ''Whiterun'', gl_category = Some ''Location''\<rparr>])
   = ''Whiterun is [Name_zz9]!''"
proof -
  let ?C = "loadGlossaryCache [\<lparr>gl_id = ''a1'', gl_term = ''Whiterun'', gl_category = Some ''Location''\<rparr>]"
  have p1: "is_placeholder ''[Location_a1]''"
    unfolding is_placeholder_def
    by (rule exI [of _ "''Location''"], rule exI [of _ "''a1''"]) (simp add: cdefs)
  have p2: "is_placeholder ''[Name_zz9]''"
    unfolding is_placeholder_def
    by (rule exI [of _ "''Name''"], rule exI [of _ "''zz9''"]) (simp add: cdefs)
  have s1: "starts_placeholder ''[Location_a1] is [Name_zz9]!''"
    unfolding starts_placeholder_def using p1
    by (intro exI [of _ "''[Location_a1]''"] exI [of _ "'' is [Name_zz9]!''"]) simp
  have s2: "starts_placeholder ''[Name_zz9]!''"
    unfolding starts_placeholder_def using p2
    by (intro exI [of _ "''[Name_zz9]''"] exI [of _ "''!''"]) simp
  have wb: "well_bracketed ''[Location_a1] is [Name_zz9]!''"
    using s1 s2 by simp
  have terms: "\<forall>k t. ?C k = Some t \<longrightarrow> CHR ''['' \<notin> set t"
    by (auto simp: loadGlossaryCache_def cache_key_def split: if_splits)
  have "unmaskText ''[Location_a1] is [Name_zz9]!'' ?C = ''Whiterun is [Name_zz9]!''"
    by (simp add: mdefs cdefs)
  then show ?thesis
    using unmask_idempotent [OF terms wb] by simp
qed

text \<open>
  The claim as stated fails: the stored terms \<open>[A\<close>, \<open>]\<close> and \<open>Z\<close> contain no substring
  matching the placeholder grammar, the text consists of two well-formed placeholders around
  \<open>_b\<close>, and the first unmasking assembles a new placeholder that the second one replaces.
\<close>

theorem unmask_idempotent_counterexample:
  "well_bracketed ''[P_1]_b[Q_2]''
   \<and> unmaskText ''[P_1]_b[Q_2]''
       (loadGlossaryCache [\<lparr>gl_id = ''1'', gl_term = ''[A'', gl_category = Some ''P''\<rparr>,
                           \<lparr>gl_id = ''2'', gl_term = '']'', gl_category = Some ''Q''\<rparr>,
                           \<lparr>gl_id = ''b'', gl_term = ''Z'', gl_category = Some ''A''\<rparr>])
       = ''[A_b]''
   \<and> unmaskText ''[A_b]''
       (loadGlossaryCache [\<lparr>gl_id = ''1'', gl_term = ''[A'', gl_category = Some ''P''\<rparr>,
                           \<lparr>gl_id = ''2'', gl_term = '']'', gl_category = Some ''Q''\<rparr>,
                           \<lparr>gl_id = ''b'', gl_term = ''Z'', gl_category = Some ''A''\<rparr>])
       = ''Z''"
proof -
  have p1: "is_placeholder ''[P_1]''"
    unfolding is_placeholder_def
    by (rule exI [of _ "''P''"], rule exI [of _ "''1''"]) (simp add: cdefs)
  have p2: "is_placeholder ''[Q_2]''"
    unfolding is_placeholder_def
    by (rule exI [of _ "''Q''"], rule exI [of _ "''2''"]) (simp add: cdefs)
  have s1: "starts_placeholder ''[P_1]_b[Q_2]''"
    unfolding starts_placeholder_def using p1
    by (intro exI [of _ "''[P_1]''"] exI [of _ "''_b[Q_2]''"]) simp
  have s2: "starts_placeholder ''[Q_2]''"
    unfolding starts_placeholder_def using p2
    by (intro exI [of _ "''[Q_2]''"] exI [of _ "[]"]) simp
  have "well_bracketed ''[P_1]_b[Q_2]''" using s1 s2 by simp
  then show ?thesis by (simp add: mdefs cdefs)
qed

section \<open>The mask pattern\<close>

lemma escapeRegExp_concat:
  "escapeRegExp s = concat (map (\<lambda>c. if is_syntax_char c then [CHR 0x5C, c] else [c]) s)"
proof -
  have "concat (map (render (\<lambda>m. CHR 0x5C # m)) (map (\<lambda>c. if is_syntax_char c then Hit [c] else Gap c) s))
      = concat (map (\<lambda>c. if is_syntax_char c then [CHR 0x5C, c] else [c]) s)"
    by (induction s) auto
  then show ?thesis by (simp add: escapeRegExp_def js_replace_def js_scan_cls)
qed

lemma parse_ordinary:
  "\<not> is_syntax_char c \<Longrightarrow> parse_pattern (c # s) = add_atom (Ch c) (parse_pattern s)"
  by (cases s) (auto simp: is_syntax_char_def)

lemma parse_escaped:
  "is_syntax_char d \<Longrightarrow> parse_pattern (CHR 0x5C # d # s) = add_atom (Ch d) (parse_pattern s)"
  by (auto simp: is_syntax_char_def)

lemma parse_boundary:
  "parse_pattern (CHR 0x5C # CHR ''b'' # s) = add_atom WordBoundary (parse_pattern s)"
  by simp

lemma parse_bar:
  "parse_pattern (CHR ''|'' # s) = map_option (\<lambda>alts. [] # alts) (parse_pattern s)"
  by (cases s) (auto simp: is_syntax_char_def)

lemma parse_escapeRegExp:
  "parse_pattern (escapeRegExp t @ s) = foldr add_atom (map Ch t) (parse_pattern s)"
  unfolding escapeRegExp_concat
  by (induction t) (simp_all add: parse_ordinary parse_escaped del: parse_pattern.simps)

lemma foldr_add_atom:
  "foldr add_atom xs (Some (alt # alts)) = Some ((xs @ alt) # alts)"
  by (induction xs) simp_all

lemma parse_wrapped:
  assumes "parse_pattern s = Some (alt # alts)"
  shows "parse_pattern ([CHR 0x5C, CHR ''b''] @ escapeRegExp t @ [CHR 0x5C, CHR ''b''] @ s) =
           Some ((WordBoundary # map Ch t @ WordBoundary # alt) # alts)"
proof -
  have "parse_pattern ([CHR 0x5C, CHR ''b''] @ s) = Some ((WordBoundary # alt) # alts)"
    using assms by (simp add: parse_boundary del: parse_pattern.simps)
  then have "parse_pattern (escapeRegExp t @ [CHR 0x5C, CHR ''b''] @ s) =
      Some ((map Ch t @ WordBoundary # alt) # alts)"
    unfolding parse_escapeRegExp by (simp add: foldr_add_atom)
  then show ?thesis
    using parse_boundary [of "escapeRegExp t @ [CHR 0x5C, CHR ''b''] @ s"] by simp
qed

lemma parse_join:
  "ts \<noteq> [] \<Longrightarrow>
   parse_pattern (join_bar (map (\<lambda>t. [CHR 0x5C, CHR ''b''] @ escapeRegExp t @ [CHR 0x5C, CHR ''b'']) ts))
     = Some (map term_alt ts)"
proof (induction ts)
  case Nil
  then show ?case by simp
next
  case (Cons t ts)
  show ?case
  proof (cases ts)
    case Nil
    have "parse_pattern [] = Some ([] # [])" by simp
    from parse_wrapped [OF this, of t] show ?thesis using Nil by (simp add: term_alt_def)
  next
    case (Cons u us)
    then have ih: "parse_pattern (join_bar (map (\<lambda>t. [CHR 0x5C, CHR ''b''] @ escapeRegExp t @ [CHR 0x5C, CHR ''b'']) ts))
     = Some (map term_alt ts)" using Cons.IH by simp
    have "parse_pattern (CHR ''|'' # join_bar (map (\<lambda>t. [CHR 0x5C, CHR ''b''] @ escapeRegExp t @ [CHR 0x5C, CHR ''b'']) ts))
       = Some ([] # map term_alt ts)"
      unfolding parse_bar ih by simp
    from parse_wrapped [OF this, of t] show ?thesis using Cons by (simp add: term_alt_def)
  qed
qed

lemma prev_of_Cons: "prev_of prev (c # s) = prev_of (Some c) s"
  by (simp add: prev_of_def)

lemma match_chars_boundary:
  "match_atoms True (map Ch t @ [WordBoundary]) prev s =
     (if length t \<le> length s \<and> toLowerCase (take (length t) s) = toLowerCase t
         \<and> at_boundary (prev_of prev (take (length t) s)) (drop (length t) s)
      then Some (length t) else None)"
proof (induction t arbitrary: prev s)
  case Nil
  then show ?case by (simp add: prev_of_def toLowerCase_def)
next
  case (Cons a t)
  show ?case
  proof (cases s)
    case Nil
    then show ?thesis by simp
  next
    case (Cons c cs)
    show ?thesis
      unfolding Cons
      by (simp add: Cons.IH char_matches_ic prev_of_Cons toLowerCase_def eq_commute [of "lower_char a"])
  qed
qed

lemma match_term_alt:
  "match_atoms True (term_alt t) prev s = (if anchored_at t prev s then Some (length t) else None)"
  unfolding term_alt_def anchored_at_def
  using match_chars_boundary [of t prev s] by auto

lemma match_alts_find:
  "match_alts True (map (\<lambda>t. term_alt (mt_term t)) ts) prev s =
     map_option (\<lambda>t. length (mt_term t)) (find (\<lambda>t. anchored_at (mt_term t) prev s) ts)"
  by (induction ts) (simp_all add: match_term_alt)

lemma sortedTerms_ne: "g \<noteq> [] \<Longrightarrow> sortedTerms g \<noteq> []"
proof -
  assume "g \<noteq> []"
  moreover have "length (sortedTerms g) = length g" by (simp add: sortedTerms_def)
  ultimately show ?thesis by auto
qed

lemma parse_mask_pattern:
  "g \<noteq> [] \<Longrightarrow> parse_pattern (join_bar (escapedTerms (sortedTerms g))) = Some (mask_regexp g)"
proof -
  assume "g \<noteq> []"
  then have ne: "map mt_term (sortedTerms g) \<noteq> []" using sortedTerms_ne by simp
  have "escapedTerms (sortedTerms g) =
      map (\<lambda>t. [CHR 0x5C, CHR ''b''] @ escapeRegExp t @ [CHR 0x5C, CHR ''b'']) (map mt_term (sortedTerms g))"
    by (simp add: escapedTerms_def comp_def)
  then show ?thesis
    using parse_join [OF ne] by (simp add: mask_regexp_def comp_def)
qed

lemma maskText_mask_from:
  assumes "g \<noteq> []"
  shows "maskText g text = Inr (mask_from g None text)"
proof -
  have "length (sortedTerms g) = length g" by (simp add: sortedTerms_def)
  then have ne: "sortedTerms g \<noteq> []" using assms by auto
  have "escapedTerms (sortedTerms g) =
      map (\<lambda>t. [CHR 0x5C, CHR ''b''] @ escapeRegExp t @ [CHR 0x5C, CHR ''b'']) (map mt_term (sortedTerms g))"
    by (simp add: escapedTerms_def comp_def)
  then have "parse_pattern (join_bar (escapedTerms (sortedTerms g))) = Some (mask_regexp g)"
    using parse_join [of "map mt_term (sortedTerms g)"] ne by (simp add: mask_regexp_def comp_def)
  then show ?thesis
    using ne by (simp add: maskText_def Let_def mask_from_def js_replace_def escapedTerms_def)
qed

lemma set_sortedTerms: "set (sortedTerms g) = to_mask_term ` set g"
  by (simp add: sortedTerms_def)

lemma sorted_sortedTerms:
  "sorted (map (\<lambda>t. - int (length (mt_term t))) (sortedTerms g))"
  by (simp add: sortedTerms_def)

lemma find_sorted_least:
  "sorted (map f xs) \<Longrightarrow> find P xs = Some x \<Longrightarrow> y \<in> set xs \<Longrightarrow> P y \<Longrightarrow> f x \<le> f y"
  by (induction xs) (auto split: if_splits)

lemma termLookup_snoc:
  "termLookup (ts @ [t]) = (termLookup ts)(toLowerCase (mt_term t) \<mapsto> (mt_id t, mt_category t))"
  by (simp add: termLookup_def)

lemma termLookup_hit:
  "t \<in> set ts \<Longrightarrow>
   \<exists>u\<in>set ts. toLowerCase (mt_term u) = toLowerCase (mt_term t)
      \<and> termLookup ts (toLowerCase (mt_term t)) = Some (mt_id u, mt_category u)"
proof (induction ts rule: rev_induct)
  case Nil
  then show ?case by simp
next
  case (snoc x xs)
  show ?case
  proof (cases "toLowerCase (mt_term x) = toLowerCase (mt_term t)")
    case True
    then show ?thesis by (auto simp: termLookup_snoc)
  next
    case False
    then have "t \<in> set xs" using snoc.prems by auto
    from snoc.IH [OF this] show ?thesis using False by (auto simp: termLookup_snoc)
  qed
qed

lemma loadGlossaryCache_snoc:
  "loadGlossaryCache (g @ [t]) = (loadGlossaryCache g)(cache_key t \<mapsto> gl_term t)"
  by (simp add: loadGlossaryCache_def)

lemma loadGlossaryCache_hit:
  "distinct (map cache_key g) \<Longrightarrow> t \<in> set g \<Longrightarrow> loadGlossaryCache g (cache_key t) = Some (gl_term t)"
proof (induction g rule: rev_induct)
  case Nil
  then show ?case by simp
next
  case (snoc x xs)
  show ?case
  proof (cases "t = x")
    case True
    then show ?thesis by (simp add: loadGlossaryCache_snoc)
  next
    case False
    then have t: "t \<in> set xs" using snoc.prems by auto
    then have "cache_key t \<in> cache_key ` set xs" by (rule imageI)
    moreover have "cache_key x \<notin> cache_key ` set xs" using snoc.prems(1) by simp
    ultimately have "cache_key t \<noteq> cache_key x" by metis
    then show ?thesis using snoc.IH t snoc.prems(1) by (simp add: loadGlossaryCache_snoc)
  qed
qed

lemma mt_term_to_mask_term [simp]: "mt_term (to_mask_term t) = gl_term t"
  and mt_id_to_mask_term [simp]: "mt_id (to_mask_term t) = gl_id t"
  by (simp_all add: to_mask_term_def)

lemma find_none_sorted:
  "find (\<lambda>t. anchored_at (mt_term t) prev s) (sortedTerms g) = None
     \<longleftrightarrow> (\<forall>t\<in>set g. \<not> anchored_at (gl_term t) prev s)"
  by (auto simp: find_None_iff set_sortedTerms)

lemma find_some_sorted:
  assumes "find (\<lambda>t. anchored_at (mt_term t) prev s) (sortedTerms g) = Some x"
  shows "\<exists>u\<in>set g. x = to_mask_term u \<and> anchored_at (gl_term u) prev s
           \<and> (\<forall>v\<in>set g. anchored_at (gl_term v) prev s \<longrightarrow> length (gl_term v) \<le> length (gl_term u))"
proof -
  from assms have x: "x \<in> set (sortedTerms g)" "anchored_at (mt_term x) prev s"
    by (auto simp: find_Some_iff in_set_conv_nth)
  then obtain u where u: "u \<in> set g" "x = to_mask_term u" by (auto simp: set_sortedTerms)
  have "length (gl_term v) \<le> length (gl_term u)" if "v \<in> set g" "anchored_at (gl_term v) prev s" for v
  proof -
    have "to_mask_term v \<in> set (sortedTerms g)" using that(1) by (simp add: set_sortedTerms)
    moreover have "anchored_at (mt_term (to_mask_term v)) prev s" using that(2) by simp
    ultimately have "- int (length (mt_term x)) \<le> - int (length (mt_term (to_mask_term v)))"
      using find_sorted_least [OF sorted_sortedTerms assms] by blast
    then show ?thesis using u(2) by simp
  qed
  then show ?thesis using u x by auto
qed

lemma scan_mask_Nil:
  "\<forall>t\<in>set g. gl_term t \<noteq> [] \<Longrightarrow> js_scan True (mask_regexp g) prev [] = []"
proof -
  assume ne: "\<forall>t\<in>set g. gl_term t \<noteq> []"
  have "\<forall>t\<in>set g. \<not> anchored_at (gl_term t) prev []" using ne by (auto simp: anchored_at_def)
  then have "find (\<lambda>t. anchored_at (mt_term t) prev []) (sortedTerms g) = None"
    by (simp add: find_none_sorted)
  then show ?thesis by (simp add: mask_regexp_def match_alts_find)
qed

lemma scan_mask_gap:
  "\<forall>t\<in>set g. \<not> anchored_at (gl_term t) prev (c # cs) \<Longrightarrow>
   js_scan True (mask_regexp g) prev (c # cs) = Gap c # js_scan True (mask_regexp g) (Some c) cs"
proof -
  assume "\<forall>t\<in>set g. \<not> anchored_at (gl_term t) prev (c # cs)"
  then have "find (\<lambda>t. anchored_at (mt_term t) prev (c # cs)) (sortedTerms g) = None"
    by (simp add: find_none_sorted)
  then show ?thesis by (simp add: mask_regexp_def match_alts_find)
qed

lemma scan_mask_hit:
  assumes "find (\<lambda>t. anchored_at (mt_term t) prev s) (sortedTerms g) = Some x"
    and "mt_term x \<noteq> []"
  shows "js_scan True (mask_regexp g) prev s =
           Hit (take (length (mt_term x)) s)
           # js_scan True (mask_regexp g) (prev_of prev (take (length (mt_term x)) s))
               (drop (length (mt_term x)) s)"
proof -
  from assms(1) have occ: "anchored_at (mt_term x) prev s" by (auto simp: find_Some_iff)
  then have len: "length (mt_term x) \<le> length s" by (simp add: anchored_at_def)
  obtain k where k: "length (mt_term x) = Suc k" using assms(2) by (cases "mt_term x") auto
  with len obtain c cs where s: "s = c # cs" by (cases s) auto
  have "match_alts True (mask_regexp g) prev (c # cs) = Some (Suc k)"
    using assms(1) k s by (simp add: mask_regexp_def match_alts_find)
  then show ?thesis unfolding s k by (simp add: prev_of_def)
qed

lemma scan_mask_empty:
  assumes "find (\<lambda>t. anchored_at (mt_term t) prev s) (sortedTerms g) = Some x"
    and "mt_term x = []"
  shows "js_scan True (mask_regexp g) prev s =
           (case s of [] \<Rightarrow> [Hit []]
            | c # cs \<Rightarrow> Hit [] # Gap c # js_scan True (mask_regexp g) (Some c) cs)"
proof -
  have "match_alts True (mask_regexp g) prev s = Some 0"
    using assms by (simp add: mask_regexp_def match_alts_find)
  then show ?thesis by (cases s) simp_all
qed

lemma word_lower: "is_word_char (lower_char c) = is_word_char c"
  by (rule all_char [where P = "\<lambda>c. is_word_char (lower_char c) = is_word_char c"])
     (simp add: enum_char_def cdefs)

text \<open>
  For a term that begins and ends with a word character, its alternative matches exactly at
  the whole-word occurrences of the term.
\<close>

lemma anchored_whole_word:
  assumes "word_delimited t"
  shows "anchored_at t prev s = whole_word_at t prev s"
proof (cases "length t \<le> length s \<and> toLowerCase (take (length t) s) = toLowerCase t")
  case False
  then show ?thesis by (auto simp: anchored_at_def whole_word_at_def)
next
  case True
  let ?m = "take (length t) s"
  have t: "t \<noteq> []" "is_word_char (hd t)" "is_word_char (last t)"
    using assms by (simp_all add: word_delimited_def)
  have m: "?m \<noteq> []" using True t(1) by auto
  have eq: "map lower_char ?m = map lower_char t" using True by (simp add: toLowerCase_def)
  have "hd (map lower_char ?m) = hd (map lower_char t)" using eq by simp
  then have "lower_char (hd ?m) = lower_char (hd t)" using m t(1) by (simp add: hd_map)
  then have "is_word_char (hd ?m)" using t(2) word_lower by metis
  moreover have "hd ?m = hd s" using t(1) by (cases s) (auto simp: take_Cons')
  ultimately have wa: "word_after s" using m by (cases s) (auto simp: word_after_def)
  have "last (map lower_char ?m) = last (map lower_char t)" using eq by simp
  then have "lower_char (last ?m) = lower_char (last t)" using m t(1) by (simp add: last_map)
  then have "is_word_char (last ?m)" using t(3) word_lower by metis
  then have wb: "word_before (prev_of prev ?m)" using m by (simp add: prev_of_def word_before_def)
  show ?thesis
    using True wa wb by (simp add: anchored_at_def whole_word_at_def at_boundary_def)
qed

lemma anchored_whole_word_glossary:
  "\<forall>t\<in>set g. word_delimited (gl_term t) \<Longrightarrow> t \<in> set g \<Longrightarrow>
   anchored_at (gl_term t) prev s = whole_word_at (gl_term t) prev s"
  by (simp add: anchored_whole_word)



lemmas sdefs = anchored_at_def whole_word_at_def word_delimited_def prev_of_def mask_from_def
  mask_regexp_def term_alt_def

section \<open>Word boundaries\<close>




section \<open>The scan step\<close>

lemma mask_from_hit:
  assumes "t \<in> set g" "gl_term t \<noteq> []" "anchored_at (gl_term t) prev s"
  shows "\<exists>u\<in>set g. \<exists>w\<in>set g.
           anchored_at (gl_term u) prev s
           \<and> length (gl_term t) \<le> length (gl_term u)
           \<and> (\<forall>v\<in>set g. anchored_at (gl_term v) prev s \<longrightarrow> length (gl_term v) \<le> length (gl_term u))
           \<and> toLowerCase (gl_term w) = toLowerCase (gl_term u)
           \<and> mask_from g prev s =
               ''['' @ mt_category (to_mask_term w) @ ''_'' @ gl_id w @ '']''
               @ mask_from g (prev_of prev (take (length (gl_term u)) s))
                   (drop (length (gl_term u)) s)"
proof -
  have "find (\<lambda>t. anchored_at (mt_term t) prev s) (sortedTerms g) \<noteq> None"
    using assms(1,3) by (auto simp: find_none_sorted)
  then obtain x where x: "find (\<lambda>t. anchored_at (mt_term t) prev s) (sortedTerms g) = Some x"
    by auto
  from find_some_sorted [OF x] obtain u where
    u: "u \<in> set g" "x = to_mask_term u" "anchored_at (gl_term u) prev s"
       "\<forall>v\<in>set g. anchored_at (gl_term v) prev s \<longrightarrow> length (gl_term v) \<le> length (gl_term u)"
    by blast
  have le: "length (gl_term t) \<le> length (gl_term u)" using u(4) assms(1,3) by blast
  then have ne: "mt_term x \<noteq> []" using assms(2) u(2) by auto
  let ?n = "length (gl_term u)"
  have low: "toLowerCase (take ?n s) = toLowerCase (gl_term u)" using u(3) by (simp add: anchored_at_def)
  have "to_mask_term u \<in> set (sortedTerms g)" using u(1) by (simp add: set_sortedTerms)
  from termLookup_hit [OF this] obtain w where
    w: "w \<in> set g" "toLowerCase (gl_term w) = toLowerCase (gl_term u)"
       "termLookup (sortedTerms g) (toLowerCase (gl_term u)) = Some (gl_id w, mt_category (to_mask_term w))"
    by (auto simp: set_sortedTerms)
  have "mask_callback (termLookup (sortedTerms g)) (take ?n s) =
      ''['' @ mt_category (to_mask_term w) @ ''_'' @ gl_id w @ '']''"
    using w(3) low by (simp add: mask_callback_def)
  then have "mask_from g prev s =
               ''['' @ mt_category (to_mask_term w) @ ''_'' @ gl_id w @ '']''
               @ mask_from g (prev_of prev (take ?n s)) (drop ?n s)"
    using scan_mask_hit [OF x ne] u(2) by (simp add: mask_from_def)
  then show ?thesis using u w le by blast
qed

lemma mask_from_hit_plain:
  assumes wd: "\<forall>t\<in>set g. word_delimited (gl_term t)"
    and "t \<in> set g" "whole_word_at (gl_term t) prev s"
  shows "\<exists>u\<in>set g. \<exists>w\<in>set g.
           whole_word_at (gl_term u) prev s
           \<and> length (gl_term t) \<le> length (gl_term u)
           \<and> (\<forall>v\<in>set g. whole_word_at (gl_term v) prev s \<longrightarrow> length (gl_term v) \<le> length (gl_term u))
           \<and> toLowerCase (gl_term w) = toLowerCase (gl_term u)
           \<and> mask_from g prev s =
               ''['' @ mt_category (to_mask_term w) @ ''_'' @ gl_id w @ '']''
               @ mask_from g (prev_of prev (take (length (gl_term u)) s))
                   (drop (length (gl_term u)) s)"
proof -
  have ne: "gl_term t \<noteq> []" using wd assms(2) by (auto simp: word_delimited_def)
  have "anchored_at (gl_term t) prev s"
    using assms(2,3) anchored_whole_word_glossary [OF wd] by simp
  from mask_from_hit [OF assms(2) ne this] obtain u w where
    uw: "u \<in> set g" "w \<in> set g" "anchored_at (gl_term u) prev s"
      "length (gl_term t) \<le> length (gl_term u)"
      "\<forall>v\<in>set g. anchored_at (gl_term v) prev s \<longrightarrow> length (gl_term v) \<le> length (gl_term u)"
      "toLowerCase (gl_term w) = toLowerCase (gl_term u)"
      "mask_from g prev s =
               ''['' @ mt_category (to_mask_term w) @ ''_'' @ gl_id w @ '']''
               @ mask_from g (prev_of prev (take (length (gl_term u)) s))
                   (drop (length (gl_term u)) s)"
    by blast
  have "whole_word_at (gl_term u) prev s"
    using uw(1,3) anchored_whole_word_glossary [OF wd] by simp
  moreover have "\<forall>v\<in>set g. whole_word_at (gl_term v) prev s \<longrightarrow> length (gl_term v) \<le> length (gl_term u)"
    using uw(5) anchored_whole_word_glossary [OF wd] by simp
  ultimately show ?thesis using uw(1,2,4,6,7) by blast
qed

lemma mask_from_unmatched:
  assumes wd: "\<forall>t\<in>set g. word_delimited (gl_term t)"
  shows "unmatched g prev pre rest \<Longrightarrow>
   mask_from g prev (pre @ rest) = pre @ mask_from g (prev_of prev pre) rest"
proof (induction pre arbitrary: prev)
  case Nil
  then show ?case by (simp add: prev_of_def)
next
  case (Cons c pre)
  then have plain: "\<forall>t\<in>set g. \<not> whole_word_at (gl_term t) prev (c # pre @ rest)"
    and un: "unmatched g (Some c) pre rest" by simp_all
  have no: "\<forall>t\<in>set g. \<not> anchored_at (gl_term t) prev (c # pre @ rest)"
    using plain anchored_whole_word_glossary [OF wd] by simp
  have "mask_from g prev (c # pre @ rest) = c # mask_from g (Some c) (pre @ rest)"
    using scan_mask_gap [OF no] by (simp add: mask_from_def)
  then show ?case using Cons.IH [OF un] by (simp add: prev_of_Cons)
qed

lemma sorted_desc:
  "sorted_wrt (\<lambda>a b. length (mt_term b) \<le> length (mt_term a)) (sortedTerms g)"
proof -
  have "sorted_wrt (\<lambda>a b. - int (length (mt_term a)) \<le> - int (length (mt_term b))) (sortedTerms g)"
    using sorted_sortedTerms [of g] by (simp add: sorted_map)
  then show ?thesis by simp
qed

section \<open>Longest match\<close>

text \<open>
  Claim C2, as amended. Terms and texts are strings of code units up to U+00FF. The pattern
  lists the terms by descending length, and the scan goes from left to right. For a glossary
  whose terms all begin and end with a word character (one of \<open>[A-Za-z0-9_]\<close>): where the
  scan stands at a position at which a glossary term occurs as a whole word, ignoring case,
  the span of a longest term occurring there as a whole word is replaced by a single
  placeholder, that of an entry with this term up to letter case, and the scan goes on after
  the span, so a shorter term is never masked alone at that position; and a prefix of the
  text in which no term occurs as a whole word at any position is copied, so the scan
  reaches its end.
\<close>

theorem mask_longest_match:
  "sorted_wrt (\<lambda>a b. length (mt_term b) \<le> length (mt_term a)) (sortedTerms g)
   \<and> (g \<noteq> [] \<longrightarrow> maskText g text = Inr (mask_from g None text))
   \<and> ((\<forall>v\<in>set g. word_delimited (gl_term v)) \<and> unmatched g prev pre rest \<longrightarrow>
        mask_from g prev (pre @ rest) = pre @ mask_from g (prev_of prev pre) rest)
   \<and> ((\<forall>v\<in>set g. word_delimited (gl_term v)) \<and> t \<in> set g
        \<and> whole_word_at (gl_term t) prev s \<longrightarrow>
        (\<exists>u\<in>set g. \<exists>w\<in>set g.
           whole_word_at (gl_term u) prev s
           \<and> length (gl_term t) \<le> length (gl_term u)
           \<and> (\<forall>v\<in>set g. whole_word_at (gl_term v) prev s \<longrightarrow>
                 length (gl_term v) \<le> length (gl_term u))
           \<and> toLowerCase (gl_term w) = toLowerCase (gl_term u)
           \<and> mask_from g prev s =
               ''['' @ mt_category (to_mask_term w) @ ''_'' @ gl_id w @ '']''
               @ mask_from g (prev_of prev (take (length (gl_term u)) s))
                   (drop (length (gl_term u)) s)))"
proof (intro conjI impI)
  show "sorted_wrt (\<lambda>a b. length (mt_term b) \<le> length (mt_term a)) (sortedTerms g)"
    by (rule sorted_desc)
next
  assume "g \<noteq> []"
  then show "maskText g text = Inr (mask_from g None text)" by (rule maskText_mask_from)
next
  assume "(\<forall>v\<in>set g. word_delimited (gl_term v)) \<and> unmatched g prev pre rest"
  then show "mask_from g prev (pre @ rest) = pre @ mask_from g (prev_of prev pre) rest"
    using mask_from_unmatched by blast
next
  assume a: "(\<forall>v\<in>set g. word_delimited (gl_term v)) \<and> t \<in> set g
        \<and> whole_word_at (gl_term t) prev s"
  then have wd: "\<forall>v\<in>set g. word_delimited (gl_term v)" and t: "t \<in> set g"
    and w: "whole_word_at (gl_term t) prev s" by simp_all
  show "\<exists>u\<in>set g. \<exists>w\<in>set g.
           whole_word_at (gl_term u) prev s
           \<and> length (gl_term t) \<le> length (gl_term u)
           \<and> (\<forall>v\<in>set g. whole_word_at (gl_term v) prev s \<longrightarrow>
                 length (gl_term v) \<le> length (gl_term u))
           \<and> toLowerCase (gl_term w) = toLowerCase (gl_term u)
           \<and> mask_from g prev s =
               ''['' @ mt_category (to_mask_term w) @ ''_'' @ gl_id w @ '']''
               @ mask_from g (prev_of prev (take (length (gl_term u)) s))
                   (drop (length (gl_term u)) s)"
    by (rule mask_from_hit_plain [OF wd t w])
qed

text \<open>The example of the specification: \<open>Skyrim\<close> and \<open>Skyrim Hold\<close>.\<close>

theorem mask_longest_match_witness:
  "maskText [\<lparr>gl_id = ''a1'', gl_term = ''Skyrim'', gl_category = Some ''Location''\<rparr>,
             \<lparr>gl_id = ''b2'', gl_term = ''Skyrim Hold'', gl_category = Some ''Location''\<rparr>]
     ''I visited Skyrim Hold today'' = Inr ''I visited [Location_b2] today''"
proof -
  let ?a = "\<lparr>gl_id = ''a1'', gl_term = ''Skyrim'', gl_category = Some ''Location''\<rparr>"
  let ?b = "\<lparr>gl_id = ''b2'', gl_term = ''Skyrim Hold'', gl_category = Some ''Location''\<rparr>"
  let ?g = "[?a, ?b]"
  have ne: "?g \<noteq> []" by simp
  have wd: "\<forall>v\<in>set ?g. word_delimited (gl_term v)" by (simp add: word_delimited_def cdefs)
  have un: "unmatched ?g None ''I visited '' ''Skyrim Hold today''"
    by (simp add: sdefs cdefs)
  have occ: "?a \<in> set ?g \<and> whole_word_at (gl_term ?a) (Some CHR '' '') ''Skyrim Hold today''"
    by (simp add: sdefs cdefs)
  have tail: "mask_from ?g (Some CHR ''d'') '' today'' = '' today''"
    by (simp add: sdefs mdefs cdefs)
  note whole = mask_longest_match [where g = ?g and prev = None and pre = "''I visited ''"
      and rest = "''Skyrim Hold today''"]
  note inst = mask_longest_match [where g = ?g and t = ?a and prev = "Some CHR '' ''"
      and s = "''Skyrim Hold today''"]
  from whole ne have 1: "maskText ?g ''I visited Skyrim Hold today'' =
      Inr (mask_from ?g None ''I visited Skyrim Hold today'')" by blast
  from whole wd un have 2: "mask_from ?g None (''I visited '' @ ''Skyrim Hold today'') =
      ''I visited '' @ mask_from ?g (prev_of None ''I visited '') ''Skyrim Hold today''" by blast
  from inst wd occ obtain u w where uw: "u \<in> set ?g" "w \<in> set ?g"
      "length (gl_term ?a) \<le> length (gl_term u)"
      "\<forall>v\<in>set ?g. whole_word_at (gl_term v) (Some CHR '' '') ''Skyrim Hold today'' \<longrightarrow>
          length (gl_term v) \<le> length (gl_term u)"
      "toLowerCase (gl_term w) = toLowerCase (gl_term u)"
      "mask_from ?g (Some CHR '' '') ''Skyrim Hold today'' =
          ''['' @ mt_category (to_mask_term w) @ ''_'' @ gl_id w @ '']''
          @ mask_from ?g (prev_of (Some CHR '' '') (take (length (gl_term u)) ''Skyrim Hold today''))
              (drop (length (gl_term u)) ''Skyrim Hold today'')"
    by blast
  have occb: "whole_word_at (gl_term ?b) (Some CHR '' '') ''Skyrim Hold today''"
    by (simp add: sdefs cdefs)
  have "u = ?b"
  proof (rule ccontr)
    assume "u \<noteq> ?b"
    then have "u = ?a" using uw(1) by simp
    then show False using uw(4) occb by simp
  qed
  moreover have "w = ?b"
  proof (rule ccontr)
    assume "w \<noteq> ?b"
    then have "w = ?a" using uw(2) by simp
    then show False using uw(5) \<open>u = ?b\<close> by (simp add: toLowerCase_def)
  qed
  ultimately have 3: "mask_from ?g (Some CHR '' '') ''Skyrim Hold today'' = ''[Location_b2] today''"
    using uw(6) tail by (simp add: to_mask_term_def prev_of_def)
  show ?thesis using 1 2 3 by (simp add: prev_of_def)
qed

text \<open>
  The claim as stated fails when a match that starts earlier overlaps the longer term:
  \<open>Sanctuary\<close> is a substring of \<open>Brotherhood Sanctuary\<close>, which occurs as a whole word
  in the text, but \<open>Dark Brotherhood\<close> is matched first and \<open>Sanctuary\<close> is masked alone.
\<close>

theorem mask_longest_match_counterexample:
  "whole_word_at ''Brotherhood Sanctuary'' (Some CHR '' '') ''Brotherhood Sanctuary''
   \<and> maskText [\<lparr>gl_id = ''a1'', gl_term = ''Sanctuary'', gl_category = Some ''Location''\<rparr>,
               \<lparr>gl_id = ''b2'', gl_term = ''Brotherhood Sanctuary'', gl_category = Some ''Location''\<rparr>,
               \<lparr>gl_id = ''c3'', gl_term = ''Dark Brotherhood'', gl_category = Some ''Faction''\<rparr>]
       ''Dark Brotherhood Sanctuary'' = Inr ''[Faction_c3] [Location_a1]''"
  by (simp add: mdefs sdefs cdefs)

text \<open>
  It fails as well for a longer term that ends with a character that is not a word
  character: \<open>Hail Sithis!\<close> stands as a whole word at the start of the text and no earlier
  match overlaps it, but its alternative asks for a word character after the exclamation
  mark, and \<open>Hail\<close> is masked alone.
\<close>

lemma mask_longest_match_nonword_end:
  "whole_word_at ''Hail Sithis!'' None ''Hail Sithis! is done''
   \<and> maskText [\<lparr>gl_id = ''h3'', gl_term = ''Hail'', gl_category = Some ''Term''\<rparr>,
               \<lparr>gl_id = ''q4'', gl_term = ''Hail Sithis!'', gl_category = Some ''Quest''\<rparr>]
       ''Hail Sithis! is done'' = Inr ''[Term_h3] Sithis! is done''"
  by (simp add: mdefs sdefs cdefs)

section \<open>Round trip\<close>

lemma glossary_casing_drop:
  "glossary_casing g prev s \<Longrightarrow> glossary_casing g (prev_of prev (take n s)) (drop n s)"
proof (induction n arbitrary: prev s)
  case 0
  then show ?case by (simp add: prev_of_def)
next
  case (Suc n)
  show ?case
  proof (cases s)
    case Nil
    then show ?thesis by (simp add: prev_of_def)
  next
    case (Cons c cs)
    then have "glossary_casing g (Some c) cs" using Suc.prems by simp
    from Suc.IH [OF this] show ?thesis using Cons by (simp add: prev_of_Cons)
  qed
qed

lemma glossary_casing_exact:
  assumes "glossary_casing g prev s" "t \<in> set g" "word_delimited (gl_term t)"
    "anchored_at (gl_term t) prev s"
  shows "take (length (gl_term t)) s = gl_term t"
proof -
  have w: "whole_word_at (gl_term t) prev s" using assms(3,4) by (simp add: anchored_whole_word)
  have "gl_term t \<noteq> []" using assms(3) by (simp add: word_delimited_def)
  then have "s \<noteq> []" using w by (auto simp: whole_word_at_def)
  then obtain c cs where "s = c # cs" by (cases s) auto
  then show ?thesis using assms(1,2) w by simp
qed

lemma split_at_separator:
  assumes "list_all P xs" "list_all P ys" "\<not> P d" "xs @ d # r = ys @ d # r'"
  shows "xs = ys \<and> r = r'"
proof -
  have "takeWhile P (xs @ d # r) = xs" "takeWhile P (ys @ d # r') = ys"
    using assms(1,2,3) by (simp_all add: list_all_iff)
  then have "xs = ys" using assms(4) by simp
  then show ?thesis using assms(4) by simp
qed

lemma wf_cache_key:
  assumes "wf_glossary g" "t \<in> set g"
  shows "cache_key t = ''['' @ mt_category (to_mask_term t) @ ''_'' @ gl_id t @ '']''"
    and "is_placeholder (cache_key t)"
proof -
  from assms obtain c where c: "gl_category t = Some c" "c \<noteq> []" "list_all is_alpha c"
    and i: "gl_id t \<noteq> []" "list_all is_idchar (gl_id t)"
    unfolding wf_glossary_def by blast
  show "cache_key t = ''['' @ mt_category (to_mask_term t) @ ''_'' @ gl_id t @ '']''"
    using c by (simp add: cache_key_def to_mask_term_def)
  have "cache_key t = ''['' @ c @ ''_'' @ gl_id t @ '']''" using c by (simp add: cache_key_def)
  then show "is_placeholder (cache_key t)" unfolding is_placeholder_def using c i by blast
qed

lemma wf_category:
  "wf_glossary g \<Longrightarrow> t \<in> set g \<Longrightarrow> \<exists>c. gl_category t = Some c \<and> c \<noteq> [] \<and> list_all is_alpha c"
  unfolding wf_glossary_def by blast

lemma wf_distinct_keys:
  assumes "wf_glossary g"
  shows "distinct (map cache_key g)"
proof -
  have ids: "distinct g" "inj_on gl_id (set g)"
    using assms by (simp_all add: wf_glossary_def distinct_map)
  have "inj_on cache_key (set g)"
  proof (rule inj_onI)
    fix a b assume a: "a \<in> set g" and b: "b \<in> set g" and eq: "cache_key a = cache_key b"
    from wf_category [OF assms a] obtain ca where ca: "gl_category a = Some ca" "list_all is_alpha ca"
      by blast
    from wf_category [OF assms b] obtain cb where cb: "gl_category b = Some cb" "list_all is_alpha cb"
      by blast
    have "ca @ CHR ''_'' # (gl_id a @ '']'') = cb @ CHR ''_'' # (gl_id b @ '']'')"
      using eq ca(1) cb(1) by (simp add: cache_key_def)
    from split_at_separator [OF ca(2) cb(2) not_alpha_us this] have "gl_id a = gl_id b" by simp
    with ids(2) show "a = b" using a b by (rule inj_onD)
  qed
  then show ?thesis using ids(1) by (simp add: distinct_map)
qed

lemma wf_lookup:
  assumes "wf_glossary g" "u \<in> set g"
  shows "termLookup (sortedTerms g) (toLowerCase (gl_term u)) =
           Some (gl_id u, mt_category (to_mask_term u))"
proof -
  have "to_mask_term u \<in> set (sortedTerms g)" using assms(2) by (simp add: set_sortedTerms)
  from termLookup_hit [OF this] obtain w where
    w: "w \<in> set g" "toLowerCase (gl_term w) = toLowerCase (gl_term u)"
       "termLookup (sortedTerms g) (toLowerCase (gl_term u)) = Some (gl_id w, mt_category (to_mask_term w))"
    by (auto simp: set_sortedTerms)
  have "inj_on (\<lambda>t. toLowerCase (gl_term t)) (set g)"
    using assms(1) by (simp add: wf_glossary_def distinct_map)
  then have "w = u" using w(2,1) assms(2) by (rule inj_onD)
  then show ?thesis using w(3) by simp
qed

lemma no_placeholder_Cons: "no_placeholder (c # cs) \<Longrightarrow> no_placeholder cs"
  unfolding no_placeholder_def
proof (intro allI impI)
  fix pre ph post assume a: "\<forall>pre ph post. c # cs = pre @ ph @ post \<longrightarrow> \<not> is_placeholder ph"
    and "cs = pre @ ph @ post"
  then have "c # cs = (c # pre) @ ph @ post" by simp
  then show "\<not> is_placeholder ph" using a by blast
qed

lemma no_placeholder_drop: "no_placeholder s \<Longrightarrow> no_placeholder (drop n s)"
proof (induction n arbitrary: s)
  case 0
  then show ?case by simp
next
  case (Suc n)
  then show ?case by (cases s) (auto dest: no_placeholder_Cons)
qed

lemma hit_renders_bracket:
  assumes "u \<in> set g" and that: "toLowerCase m = toLowerCase (gl_term u)"
  shows "\<exists>r. mask_callback (termLookup (sortedTerms g)) m = CHR ''['' # r"
proof -
  have "to_mask_term u \<in> set (sortedTerms g)" using assms(1) by (simp add: set_sortedTerms)
  from termLookup_hit [OF this] obtain w :: mask_term where
    "termLookup (sortedTerms g) (toLowerCase (gl_term u)) = Some (mt_id w, mt_category w)"
    by auto
  then show ?thesis using that by (simp add: mask_callback_def)
qed

lemma mask_prefix:
  "prefix w (mask_from g prev s) \<Longrightarrow> CHR ''['' \<notin> set w \<Longrightarrow> prefix w s"
proof (induction s arbitrary: prev w rule: length_induct)
  case (1 s)
  show ?case
  proof (cases "find (\<lambda>t. anchored_at (mt_term t) prev s) (sortedTerms g)")
    case None
    then have no: "\<forall>t\<in>set g. \<not> anchored_at (gl_term t) prev s" by (simp add: find_none_sorted)
    show ?thesis
    proof (cases s)
      case Nil
      have "match_alts True (mask_regexp g) prev [] = None"
        using None Nil by (simp add: mask_regexp_def match_alts_find)
      then show ?thesis using Nil "1.prems"(1) by (simp add: mask_from_def)
    next
      case (Cons c cs)
      have m: "mask_from g prev (c # cs) = c # mask_from g (Some c) cs"
        using scan_mask_gap [OF no [unfolded Cons]] by (simp add: mask_from_def)
      show ?thesis
      proof (cases w)
        case Nil
        then show ?thesis by simp
      next
        case (Cons a w')
        then have "a = c" "prefix w' (mask_from g (Some c) cs)" "CHR ''['' \<notin> set w'"
          using "1.prems" m \<open>s = c # cs\<close> by auto
        then have "prefix w' cs" using 1 \<open>s = c # cs\<close> by simp
        then show ?thesis using Cons \<open>a = c\<close> \<open>s = c # cs\<close> by simp
      qed
    qed
  next
    case (Some x)
    from find_some_sorted [OF Some] obtain u where
      u: "u \<in> set g" "x = to_mask_term u" "anchored_at (gl_term u) prev s" by blast
    let ?n = "length (gl_term u)"
    have low: "toLowerCase (take ?n s) = toLowerCase (gl_term u)"
      using u(3) by (simp add: anchored_at_def)
    from hit_renders_bracket [OF u(1) low] obtain r where
      r: "mask_callback (termLookup (sortedTerms g)) (take ?n s) = CHR ''['' # r" by blast
    have "\<exists>rest. mask_from g prev s = CHR ''['' # rest"
    proof (cases "mt_term x = []")
      case True
      then have "take ?n s = []" using u(2) by simp
      then show ?thesis using scan_mask_empty [OF Some True] r
        by (cases s) (simp_all add: mask_from_def)
    next
      case False
      then show ?thesis using scan_mask_hit [OF Some False] r u(2) by (simp add: mask_from_def)
    qed
    then have "w = []" using "1.prems" by (cases w) auto
    then show ?thesis by simp
  qed
qed

lemma round_trip_from:
  assumes wf: "wf_glossary g"
  shows "no_placeholder s \<Longrightarrow> glossary_casing g prev s \<Longrightarrow>
         unmaskText (mask_from g prev s) (loadGlossaryCache g) = s"
proof (induction s arbitrary: prev rule: length_induct)
  case (1 s)
  have wd: "\<forall>t\<in>set g. word_delimited (gl_term t)" using wf by (simp add: wf_glossary_def)
  then have ne: "\<forall>t\<in>set g. gl_term t \<noteq> []" by (auto simp: word_delimited_def)
  show ?case
  proof (cases "find (\<lambda>t. anchored_at (mt_term t) prev s) (sortedTerms g)")
    case None
    then have no: "\<forall>t\<in>set g. \<not> anchored_at (gl_term t) prev s" by (simp add: find_none_sorted)
    show ?thesis
    proof (cases s)
      case Nil
      then show ?thesis using scan_mask_Nil [OF ne] by (simp add: mask_from_def unmask_Nil)
    next
      case (Cons c cs)
      let ?X = "mask_from g (Some c) cs"
      have "unmaskText ?X (loadGlossaryCache g) = cs"
        using 1 Cons no_placeholder_Cons by auto
      moreover have m: "mask_from g prev (c # cs) = c # ?X"
        using scan_mask_gap [OF no [unfolded Cons]] by (simp add: mask_from_def)
      moreover have "match_alts False unmask_pattern None (c # ?X) = None"
      proof (rule ccontr)
        assume "match_alts False unmask_pattern None (c # ?X) \<noteq> None"
        then obtain n where "match_alts False unmask_pattern None (c # ?X) = Some n" by auto
        from match_unmask_inv [OF this] obtain ph rest where
          p: "c # ?X = ph @ rest" "is_placeholder ph" by blast
        from placeholder_shape [OF p(2)] obtain t where t: "ph = CHR ''['' # t" "CHR ''['' \<notin> set t"
          by blast
        then have "prefix t ?X" using p(1) by (auto simp: prefix_def)
        from mask_prefix [OF this t(2)] obtain rest' where "cs = t @ rest'" by (auto simp: prefix_def)
        then have "s = [] @ ph @ rest'" using Cons t(1) p(1) by simp
        then show False using "1.prems"(1) p(2) unfolding no_placeholder_def by blast
      qed
      ultimately show ?thesis using Cons by (simp add: unmask_Cons_nomatch)
    qed
  next
    case (Some x)
    from find_some_sorted [OF Some] obtain u where
      u: "u \<in> set g" "x = to_mask_term u" "anchored_at (gl_term u) prev s" by blast
    have tne: "gl_term u \<noteq> []" using ne u(1) by blast
    then have xne: "mt_term x \<noteq> []" using u(2) by simp
    let ?n = "length (gl_term u)"
    have len: "?n \<le> length s" using u(3) by (simp add: anchored_at_def)
    have pos: "0 < ?n" using tne by simp
    have exact: "take ?n s = gl_term u"
      using glossary_casing_exact [OF "1.prems"(2) u(1) _ u(3)] wd u(1) by blast
    have cb: "mask_callback (termLookup (sortedTerms g)) (take ?n s) = cache_key u"
      using wf_lookup [OF wf u(1)] wf_cache_key(1) [OF wf u(1)] exact
      by (simp add: mask_callback_def)
    have m: "mask_from g prev s = cache_key u @ mask_from g (prev_of prev (take ?n s)) (drop ?n s)"
      using scan_mask_hit [OF Some xne] u(2) cb by (simp add: mask_from_def)
    have "length (drop ?n s) < length s" unfolding length_drop using len pos by arith
    moreover have "no_placeholder (drop ?n s)" using "1.prems"(1) by (rule no_placeholder_drop)
    moreover have "glossary_casing g (prev_of prev (take ?n s)) (drop ?n s)"
      using glossary_casing_drop [OF "1.prems"(2)] .
    ultimately have ih: "unmaskText (mask_from g (prev_of prev (take ?n s)) (drop ?n s)) (loadGlossaryCache g)
        = drop ?n s"
      using 1 by blast
    have "loadGlossaryCache g (cache_key u) = Some (gl_term u)"
      using loadGlossaryCache_hit [OF wf_distinct_keys [OF wf] u(1)] .
    then have "unmask_callback (loadGlossaryCache g) (cache_key u) = gl_term u"
      using tne by (simp add: unmask_callback_def)
    then have "unmaskText (mask_from g prev s) (loadGlossaryCache g) = gl_term u @ drop ?n s"
      unfolding m using unmask_placeholder_append [OF wf_cache_key(2) [OF wf u(1)]] ih by simp
    then show ?thesis using exact by (metis append_take_drop_id)
  qed
qed

text \<open>
  Claim C1, as amended. Terms and texts are strings of code units up to U+00FF. For a
  non-empty glossary whose terms begin and end with a word character (one of
  \<open>[A-Za-z0-9_]\<close>), whose categories match \<open>[A-Za-z]+\<close> and ids match \<open>[a-z0-9]+\<close>, with distinct
  ids and with terms distinct up to letter case, and for a text without a substring matching
  the placeholder grammar (any text without an opening bracket is one) in which every
  whole-word occurrence of a glossary term, ignoring case, has the casing of the glossary:
  masking succeeds, and unmasking the masked text with the cache of the glossary gives the
  text back. An occurrence is a whole word when no word character stands next to it.
\<close>

theorem mask_unmask_round_trip:
  assumes "g \<noteq> []" "wf_glossary g" "no_placeholder text" "glossary_casing g None text"
  shows "\<exists>masked. maskText g text = Inr masked \<and> unmaskText masked (loadGlossaryCache g) = text"
  using maskText_mask_from [OF assms(1)] round_trip_from [OF assms(2,3,4)] by simp

theorem mask_unmask_round_trip_witness:
  "maskText [\<lparr>gl_id = ''a1'', gl_term = ''Whiterun'', gl_category = Some ''Location''\<rparr>,
             \<lparr>gl_id = ''b2'', gl_term = ''Skyrim Hold'', gl_category = Some ''Location''\<rparr>]
     ''To Whiterun, Skyrim Hold.'' = Inr ''To [Location_a1], [Location_b2].''
   \<and> unmaskText ''To [Location_a1], [Location_b2].''
       (loadGlossaryCache [\<lparr>gl_id = ''a1'', gl_term = ''Whiterun'', gl_category = Some ''Location''\<rparr>,
             \<lparr>gl_id = ''b2'', gl_term = ''Skyrim Hold'', gl_category = Some ''Location''\<rparr>])
     = ''To Whiterun, Skyrim Hold.''"
proof -
  let ?g = "[\<lparr>gl_id = ''a1'', gl_term = ''Whiterun'', gl_category = Some ''Location''\<rparr>,
             \<lparr>gl_id = ''b2'', gl_term = ''Skyrim Hold'', gl_category = Some ''Location''\<rparr>]"
  have ne: "?g \<noteq> []" by simp
  have wf: "wf_glossary ?g" by (simp add: wf_glossary_def word_delimited_def cdefs)
  have nb: "no_placeholder ''To Whiterun, Skyrim Hold.''"
    unfolding no_placeholder_def by (rule no_bracket_no_placeholder) simp
  have gc: "glossary_casing ?g None ''To Whiterun, Skyrim Hold.''"
    by (simp add: sdefs cdefs)
  have m: "maskText ?g ''To Whiterun, Skyrim Hold.'' = Inr ''To [Location_a1], [Location_b2].''"
    by (simp add: mdefs cdefs)
  from mask_unmask_round_trip [OF ne wf nb gc] m show ?thesis by simp
qed

text \<open>
  The claim as stated fails: the text is the glossary term \<open>The\<close> in its casing, followed by
  the filler word \<open>Reach\<close>, which matches no glossary term; the pattern matches the span
  \<open>The Reach\<close> with the term \<open>the Reach\<close>, and unmasking restores the casing of the glossary.
\<close>

theorem mask_unmask_round_trip_counterexample:
  "maskText [\<lparr>gl_id = ''a1'', gl_term = ''The'', gl_category = Some ''Name''\<rparr>,
             \<lparr>gl_id = ''b2'', gl_term = ''the Reach'', gl_category = Some ''Location''\<rparr>]
     ''The Reach'' = Inr ''[Location_b2]''
   \<and> unmaskText ''[Location_b2]''
       (loadGlossaryCache [\<lparr>gl_id = ''a1'', gl_term = ''The'', gl_category = Some ''Name''\<rparr>,
             \<lparr>gl_id = ''b2'', gl_term = ''the Reach'', gl_category = Some ''Location''\<rparr>])
     = ''the Reach''"
  by (simp add: mdefs cdefs)

text \<open>
  The other conditions are needed as well: two terms that differ in letter case only share
  one entry of \<open>termLookup\<close>; a term in placeholder syntax that the pattern cannot match is
  taken for a placeholder by the unmasking; the placeholder of an empty term is inserted at
  every word boundary and never removed; for a term that ends with a character that is not
  a word character the pattern matches a case variant inside a longer word, although every
  whole-word occurrence has the casing of the glossary.
\<close>

lemma round_trip_case_variants:
  "maskText [\<lparr>gl_id = ''a1'', gl_term = ''Dragon'', gl_category = Some ''Creature''\<rparr>,
             \<lparr>gl_id = ''b2'', gl_term = ''dragon'', gl_category = Some ''Creature''\<rparr>]
     ''Dragon'' = Inr ''[Creature_b2]''
   \<and> unmaskText ''[Creature_b2]''
       (loadGlossaryCache [\<lparr>gl_id = ''a1'', gl_term = ''Dragon'', gl_category = Some ''Creature''\<rparr>,
             \<lparr>gl_id = ''b2'', gl_term = ''dragon'', gl_category = Some ''Creature''\<rparr>])
     = ''dragon''"
  by (simp add: mdefs cdefs)

lemma round_trip_bracket_term:
  "maskText [\<lparr>gl_id = ''a1'', gl_term = ''Whiterun'', gl_category = Some ''Location''\<rparr>,
             \<lparr>gl_id = ''q7'', gl_term = ''[Location_a1]'', gl_category = Some ''Item''\<rparr>]
     ''[Location_a1]'' = Inr ''[Location_a1]''
   \<and> unmaskText ''[Location_a1]''
       (loadGlossaryCache [\<lparr>gl_id = ''a1'', gl_term = ''Whiterun'', gl_category = Some ''Location''\<rparr>,
             \<lparr>gl_id = ''q7'', gl_term = ''[Location_a1]'', gl_category = Some ''Item''\<rparr>])
     = ''Whiterun''"
  by (simp add: mdefs cdefs)

lemma round_trip_empty_term:
  "maskText [\<lparr>gl_id = ''a1'', gl_term = [], gl_category = Some ''Term''\<rparr>] ''hi''
     = Inr ''[Term_a1]hi[Term_a1]''
   \<and> unmaskText ''[Term_a1]hi[Term_a1]''
       (loadGlossaryCache [\<lparr>gl_id = ''a1'', gl_term = [], gl_category = Some ''Term''\<rparr>])
     = ''[Term_a1]hi[Term_a1]''"
  by (simp add: mdefs cdefs)

lemma round_trip_nonword_end:
  "glossary_casing [\<lparr>gl_id = ''c3'', gl_term = ''C++'', gl_category = Some ''Term''\<rparr>] None ''C++ c++x''
   \<and> maskText [\<lparr>gl_id = ''c3'', gl_term = ''C++'', gl_category = Some ''Term''\<rparr>] ''C++ c++x''
       = Inr ''C++ [Term_c3]x''
   \<and> unmaskText ''C++ [Term_c3]x''
       (loadGlossaryCache [\<lparr>gl_id = ''c3'', gl_term = ''C++'', gl_category = Some ''Term''\<rparr>])
       = ''C++ C++x''"
  by (simp add: mdefs sdefs cdefs)

section \<open>What the masking step writes\<close>

lemma termSet_image: "termSet ts = (\<lambda>t. toLowerCase (mt_term t)) ` set ts"
proof -
  have "fold (\<lambda>t S. insert (toLowerCase (mt_term t)) S) ts S0 = (\<lambda>t. toLowerCase (mt_term t)) ` set ts \<union> S0"
    for S0
    by (induction ts arbitrary: S0) auto
  then show ?thesis by (simp add: termSet_def)
qed

lemma termSet_sorted: "termSet (sortedTerms g) = (\<lambda>t. toLowerCase (gl_term t)) ` set g"
  by (simp add: termSet_image set_sortedTerms image_image)

lemma fold_apply_update: "fold apply_update us table = map (fold update_row us) table"
  by (induction us arbitrary: table) (simp_all add: apply_update_def)

lemma update_row_id [simp]: "ds_id (update_row u r) = ds_id r"
  by (simp add: update_row_def)

lemma fold_update_row_other:
  "\<forall>u\<in>set us. u_id u \<noteq> ds_id r \<Longrightarrow> fold update_row us r = r"
  by (induction us) (simp_all add: update_row_def)

lemma mask_record_id: "mask_record tset lookup pattern r = Some u \<Longrightarrow> u_id u = ds_id r"
  by (auto simp: mask_record_def Let_def split: option.splits if_splits)

lemma map_filter_ids:
  "u \<in> set (List.map_filter (mask_record tset lookup pattern) xs) \<Longrightarrow> u_id u \<in> ds_id ` set xs"
proof -
  assume "u \<in> set (List.map_filter (mask_record tset lookup pattern) xs)"
  then obtain x where x: "x \<in> set xs" "mask_record tset lookup pattern x = Some u"
    by (auto simp: List.map_filter_def)
  from mask_record_id [OF x(2)] show ?thesis using x(1) by simp
qed

lemma map_filter_append: "List.map_filter f (xs @ ys) = List.map_filter f xs @ List.map_filter f ys"
  by (simp add: List.map_filter_def)

lemma map_filter_single:
  "List.map_filter f [x] = (case f x of None \<Rightarrow> [] | Some y \<Rightarrow> [y])"
  by (simp add: List.map_filter_def split: option.splits)

lemma fold_updates_row:
  assumes "distinct (map ds_id (xs @ r # ys))"
  shows "fold update_row (List.map_filter (mask_record tset lookup pattern) (xs @ r # ys)) r =
           (case mask_record tset lookup pattern r of None \<Rightarrow> r | Some u \<Rightarrow> update_row u r)"
proof -
  let ?f = "mask_record tset lookup pattern"
  let ?r1 = "case ?f r of None \<Rightarrow> r | Some u \<Rightarrow> update_row u r"
  have nx: "ds_id r \<notin> ds_id ` set xs" and ny: "ds_id r \<notin> ds_id ` set ys"
    using assms by auto
  have a: "fold update_row (List.map_filter ?f xs) r = r"
    using nx map_filter_ids [of _ tset lookup pattern xs]
    by (intro fold_update_row_other) metis
  have id1: "ds_id ?r1 = ds_id r" by (simp split: option.splits)
  have b: "fold update_row (List.map_filter ?f [r]) r = ?r1"
    by (simp add: map_filter_single split: option.splits)
  have c: "fold update_row (List.map_filter ?f ys) ?r1 = ?r1"
    using ny map_filter_ids [of _ tset lookup pattern ys] id1
    by (intro fold_update_row_other) metis
  have "List.map_filter ?f (xs @ r # ys) =
      List.map_filter ?f xs @ List.map_filter ?f [r] @ List.map_filter ?f ys"
    using map_filter_append [of ?f xs "[r] @ ys"] map_filter_append [of ?f "[r]" ys] by simp
  then show ?thesis using a b c by simp
qed

lemma mask_record_update:
  "case mask_record (termSet (sortedTerms g)) lookup pattern r of
     None \<Rightarrow> True
   | Some u \<Rightarrow> u_id u = ds_id r
       \<and> u_dest u = (if autofilled g r then ds_source r else ds_dest r)"
  by (cases "ds_source r")
     (auto simp: mask_record_def Let_def autofilled_def termSet_sorted)

lemma mask_record_none:
  "mask_record (termSet (sortedTerms g)) lookup pattern r = None \<Longrightarrow>
   autofilled g r \<Longrightarrow> ds_source r = ds_dest r"
  by (cases "ds_source r")
     (auto simp: mask_record_def Let_def autofilled_def termSet_sorted split: if_splits)

lemma masked_row:
  assumes "(case mask_record (termSet (sortedTerms g)) lookup pattern r of
              None \<Rightarrow> r | Some u \<Rightarrow> update_row u r) = r'"
  shows "ds_id r' = ds_id r \<and> ds_fileId r' = ds_fileId r \<and> ds_sId r' = ds_sId r
      \<and> ds_listId r' = ds_listId r \<and> ds_source r' = ds_source r
      \<and> ds_dest r' = (if autofilled g r then ds_source r else ds_dest r)"
proof (cases "mask_record (termSet (sortedTerms g)) lookup pattern r")
  case None
  then show ?thesis using assms mask_record_none [OF None] by auto
next
  case (Some u)
  then have "u_id u = ds_id r" "u_dest u = (if autofilled g r then ds_source r else ds_dest r)"
    using mask_record_update [where g = g and lookup = lookup and pattern = pattern and r = r] by simp_all
  then show ?thesis using assms Some by (auto simp: update_row_def)
qed

text \<open>
  Claim C4, as amended. For a non-empty glossary and a table with distinct ids, the masking
  step succeeds and writes only dest and maskedSource: id, fileId, sId, listId and source of
  every record keep their values, and dest keeps its value unless the non-empty source of the
  record is a glossary term up to letter case, in which case dest becomes the source.
\<close>

theorem masking_frame:
  assumes "g \<noteq> []" "distinct (map ds_id table)"
  shows "\<exists>table'. mask_main g table = Inr table' \<and> length table' = length table
           \<and> (\<forall>i<length table.
                 ds_id (table' ! i) = ds_id (table ! i)
                 \<and> ds_fileId (table' ! i) = ds_fileId (table ! i)
                 \<and> ds_sId (table' ! i) = ds_sId (table ! i)
                 \<and> ds_listId (table' ! i) = ds_listId (table ! i)
                 \<and> ds_source (table' ! i) = ds_source (table ! i)
                 \<and> ds_dest (table' ! i) =
                     (if autofilled g (table ! i) then ds_source (table ! i) else ds_dest (table ! i)))"
proof -
  let ?f = "mask_record (termSet (sortedTerms g)) (termLookup (sortedTerms g)) (mask_regexp g)"
  let ?t = "map (fold update_row (List.map_filter ?f table)) table"
  have ne: "escapedTerms (sortedTerms g) \<noteq> []"
    using sortedTerms_ne [OF assms(1)] by (simp add: escapedTerms_def)
  have m: "mask_main g table = Inr ?t"
    using ne parse_mask_pattern [OF assms(1)] by (simp add: mask_main_def Let_def fold_apply_update)
  have row: "ds_id (?t ! i) = ds_id (table ! i)
                 \<and> ds_fileId (?t ! i) = ds_fileId (table ! i)
                 \<and> ds_sId (?t ! i) = ds_sId (table ! i)
                 \<and> ds_listId (?t ! i) = ds_listId (table ! i)
                 \<and> ds_source (?t ! i) = ds_source (table ! i)
                 \<and> ds_dest (?t ! i) =
                     (if autofilled g (table ! i) then ds_source (table ! i) else ds_dest (table ! i))"
    if i: "i < length table" for i
  proof -
    have split: "table = take i table @ table ! i # drop (Suc i) table"
      using i by (rule id_take_nth_drop)
    have "distinct (map ds_id (take i table @ table ! i # drop (Suc i) table))"
      using assms(2) split by simp
    from fold_updates_row [OF this, of "termSet (sortedTerms g)" "termLookup (sortedTerms g)" "mask_regexp g"]
    have "fold update_row (List.map_filter ?f table) (table ! i) =
        (case ?f (table ! i) of None \<Rightarrow> table ! i | Some u \<Rightarrow> update_row u (table ! i))"
      using split by simp
    then have "(case ?f (table ! i) of None \<Rightarrow> table ! i | Some u \<Rightarrow> update_row u (table ! i)) = ?t ! i"
      using i by simp
    from masked_row [OF this] show ?thesis .
  qed
  have "length ?t = length table" by simp
  with m row show ?thesis by blast
qed

theorem masking_frame_witness:
  "mask_main [\<lparr>gl_id = ''a1'', gl_term = ''Whiterun'', gl_category = Some ''Location''\<rparr>]
     [\<lparr>ds_id = 1, ds_fileId = 7, ds_sId = ''s1'', ds_listId = Some ''0'',
       ds_source = Some ''Welcome to Whiterun'', ds_dest = Some ''Selamat datang'',
       ds_maskedSource = None\<rparr>,
      \<lparr>ds_id = 2, ds_fileId = 7, ds_sId = ''s2'', ds_listId = Some ''0'',
       ds_source = Some ''WHITERUN'', ds_dest = Some '''', ds_maskedSource = None\<rparr>]
   = Inr
     [\<lparr>ds_id = 1, ds_fileId = 7, ds_sId = ''s1'', ds_listId = Some ''0'',
       ds_source = Some ''Welcome to Whiterun'', ds_dest = Some ''Selamat datang'',
       ds_maskedSource = Some ''Welcome to [Location_a1]''\<rparr>,
      \<lparr>ds_id = 2, ds_fileId = 7, ds_sId = ''s2'', ds_listId = Some ''0'',
       ds_source = Some ''WHITERUN'', ds_dest = Some ''WHITERUN'',
       ds_maskedSource = Some ''[Location_a1]''\<rparr>]"
proof -
  let ?g = "[\<lparr>gl_id = ''a1'', gl_term = ''Whiterun'', gl_category = Some ''Location''\<rparr>]"
  let ?r1 = "\<lparr>ds_id = 1, ds_fileId = 7, ds_sId = ''s1'', ds_listId = Some ''0'',
       ds_source = Some ''Welcome to Whiterun'', ds_dest = Some ''Selamat datang'',
       ds_maskedSource = None\<rparr>"
  let ?r2 = "\<lparr>ds_id = 2, ds_fileId = 7, ds_sId = ''s2'', ds_listId = Some ''0'',
       ds_source = Some ''WHITERUN'', ds_dest = Some '''', ds_maskedSource = None\<rparr>"
  have ne: "?g \<noteq> []" by simp
  have di: "distinct (map ds_id [?r1, ?r2])" by simp
  from masking_frame [OF ne di] obtain table' where
    t: "mask_main ?g [?r1, ?r2] = Inr table'" "length table' = length [?r1, ?r2]"
    and rows: "\<forall>i<length [?r1, ?r2].
        ds_source (table' ! i) = ds_source ([?r1, ?r2] ! i)
        \<and> ds_dest (table' ! i) =
            (if autofilled ?g ([?r1, ?r2] ! i) then ds_source ([?r1, ?r2] ! i)
             else ds_dest ([?r1, ?r2] ! i))"
    by blast
  have ev: "mask_main ?g [?r1, ?r2] = Inr
     [?r1\<lparr>ds_maskedSource := Some ''Welcome to [Location_a1]''\<rparr>,
      ?r2\<lparr>ds_dest := Some ''WHITERUN'', ds_maskedSource := Some ''[Location_a1]''\<rparr>]"
    by (simp add: mask_main_def mask_record_def update_row_def apply_update_def termSet_def
          List.map_filter_def mdefs cdefs)
  then show ?thesis using t by simp
qed

text \<open>
  The claim as stated fails: the source of the record is a glossary term, and the masking
  step replaces its empty dest by the source.
\<close>

theorem masking_frame_counterexample:
  "mask_main [\<lparr>gl_id = ''a1'', gl_term = ''Whiterun'', gl_category = Some ''Location''\<rparr>]
     [\<lparr>ds_id = 2, ds_fileId = 7, ds_sId = ''s2'', ds_listId = Some ''0'',
       ds_source = Some ''Whiterun'', ds_dest = Some '''', ds_maskedSource = None\<rparr>]
   = Inr
     [\<lparr>ds_id = 2, ds_fileId = 7, ds_sId = ''s2'', ds_listId = Some ''0'',
       ds_source = Some ''Whiterun'', ds_dest = Some ''Whiterun'',
       ds_maskedSource = Some ''[Location_a1]''\<rparr>]"
  by (simp add: mask_main_def mask_record_def update_row_def apply_update_def termSet_def
        List.map_filter_def mdefs cdefs)

end
